theory Spec2Isabelle
  imports Main "HOL-Library.Word"
begin

unbundle bit_operations_syntax

section \<open>Data model\<close>

text \<open>
  The allocator of \<^verbatim>\<open>src/unnamed/part_001\<close> keeps its bookkeeping in block
  descriptors (\<^verbatim>\<open>struct block_meta\<close>) that are linked into a circular doubly-linked
  list through the global sentinel \<^verbatim>\<open>head\<close>. The model is a store of descriptors
  indexed by pointers, and every C function becomes a function on the allocator state.
  \<^verbatim>\<open>size_t\<close> is a 64-bit word (LP64), so all size arithmetic wraps as in C.
\<close>

type_synonym size_t = "64 word"

text \<open>
  Modelled from the spec: \<^verbatim>\<open>block_meta.h\<close> (the descriptor type and the three status
  constants) is not among the sources. The spec names the fields \<^verbatim>\<open>size\<close>,
  \<^verbatim>\<open>status\<close>, \<^verbatim>\<open>prev\<close>, \<^verbatim>\<open>next\<close> and the statuses Free, Allocated, Mapped.
  The fields \<^verbatim>\<open>size\<close> and \<^verbatim>\<open>next\<close> are called \<open>bsize\<close> and \<open>bnext\<close> here.
\<close>

datatype status_t = STATUS_FREE | STATUS_ALLOC | STATUS_MAPPED

text \<open>
  A pointer is null, the address of the global \<^verbatim>\<open>head\<close>, or an address inside the
  program-break heap or a mapping. The sentinel is a separate object of the program, so
  its address is never the result of heap address arithmetic.
\<close>

datatype ptr = NULL | HEAD | At size_t

record block_meta =
  bsize :: size_t
  status :: status_t
  prev :: ptr
  bnext :: ptr

text \<open>
  The allocator state: the descriptor store, the payload bytes, the two global flags,
  and the part of the operating system the allocator talks to. \<open>brk\<close> is the program
  break, which the kernel keeps between \<open>brk_min\<close> and \<open>brk_max\<close>; \<open>sbrk_calls\<close>
  records the increment of every \<^verbatim>\<open>sbrk\<close> request in call order; \<open>mmap_pool\<close> lists the
  base addresses the kernel hands out for the coming \<^verbatim>\<open>mmap\<close> calls (none left: the call
  fails); \<open>mappings\<close> are the live mappings as (base, length).
\<close>

record state =
  mem :: "ptr \<Rightarrow> block_meta"
  bytes :: "size_t \<Rightarrow> 8 word"
  head_init_done :: bool
  heap_prealloc_done :: bool
  brk :: size_t
  brk_min :: size_t
  brk_max :: size_t
  sbrk_calls :: "size_t list"
  mmap_pool :: "size_t list"
  mappings :: "(size_t \<times> size_t) list"

subsection \<open>Constants and macros of \<^verbatim>\<open>utils_src.h\<close>\<close>

definition HEAP_PREALLOC_SIZE :: size_t where
  "HEAP_PREALLOC_SIZE = 128 * 1024"

definition MMAP_THRESHOLD :: size_t where
  "MMAP_THRESHOLD = 128 * 1024"

definition ALIGNMENT :: size_t where
  "ALIGNMENT = 8"

definition ALIGN :: "size_t \<Rightarrow> size_t" where
  "ALIGN sz = (sz + (ALIGNMENT - 1)) AND NOT (ALIGNMENT - 1)"

text \<open>
  Modelled from the spec: \<^verbatim>\<open>sizeof(struct block_meta)\<close> comes from the missing
  \<^verbatim>\<open>block_meta.h\<close>; the spec only says that the descriptor size rounded up to 8 is the
  compile-time constant META. With a \<^verbatim>\<open>size_t\<close>, an \<^verbatim>\<open>int\<close> and two pointers the
  structure occupies 32 bytes on LP64.
\<close>

definition sizeof_block_meta :: size_t where
  "sizeof_block_meta = 32"

definition META_BLOCK_SIZE :: size_t where
  "META_BLOCK_SIZE = ALIGN sizeof_block_meta"

text \<open>The page size \<^verbatim>\<open>getpagesize()\<close> reports; 4096 on the usual targets.\<close>

definition getpagesize :: size_t where
  "getpagesize = 4096"

subsection \<open>Descriptor access\<close>

definition set_size :: "ptr \<Rightarrow> size_t \<Rightarrow> state \<Rightarrow> state" where
  "set_size p v s = s\<lparr>mem := (mem s)(p := (mem s p)\<lparr>bsize := v\<rparr>)\<rparr>"

definition set_status :: "ptr \<Rightarrow> status_t \<Rightarrow> state \<Rightarrow> state" where
  "set_status p v s = s\<lparr>mem := (mem s)(p := (mem s p)\<lparr>status := v\<rparr>)\<rparr>"

definition set_prev :: "ptr \<Rightarrow> ptr \<Rightarrow> state \<Rightarrow> state" where
  "set_prev p v s = s\<lparr>mem := (mem s)(p := (mem s p)\<lparr>prev := v\<rparr>)\<rparr>"

definition set_next :: "ptr \<Rightarrow> ptr \<Rightarrow> state \<Rightarrow> state" where
  "set_next p v s = s\<lparr>mem := (mem s)(p := (mem s p)\<lparr>bnext := v\<rparr>)\<rparr>"

text \<open>\<^verbatim>\<open>(char *)block + n\<close> and the payload pointer \<^verbatim>\<open>(char *)block + META_BLOCK_SIZE\<close>.
  A null pointer is address 0, so that \<^verbatim>\<open>(char *)NULL + n\<close> is the address \<open>n\<close>; the
  allocator never offsets \<^verbatim>\<open>head\<close>, whose address is not modelled.\<close>

fun ptr_add :: "ptr \<Rightarrow> size_t \<Rightarrow> ptr" where
  "ptr_add (At a) n = At (a + n)"
| "ptr_add NULL n = At n"
| "ptr_add HEAD n = NULL"

definition payload :: "ptr \<Rightarrow> ptr" where
  "payload block = ptr_add block META_BLOCK_SIZE"

fun addr_of :: "ptr \<Rightarrow> size_t" where
  "addr_of (At a) = a"
| "addr_of p = 0"

subsection \<open>Operating system primitives\<close>

text \<open>
  \<^verbatim>\<open>sbrk(increment)\<close> takes an \<^verbatim>\<open>intptr_t\<close>: the \<^verbatim>\<open>size_t\<close> the allocator passes is
  read as a signed value, and a negative one lowers the break. The call fails, changing
  nothing, when the new break would leave the range the kernel allows. On success it
  returns the old break.
\<close>

definition sbrk :: "size_t \<Rightarrow> state \<Rightarrow> size_t option \<times> state" where
  "sbrk increment s =
     (let s1 = s\<lparr>sbrk_calls := sbrk_calls s @ [increment]\<rparr>;
          new_brk = uint (brk s) + sint increment
      in if new_brk < uint (brk_min s) \<or> uint (brk_max s) < new_brk then (None, s1)
         else (Some (brk s), s1\<lparr>brk := word_of_int new_brk\<rparr>))"

text \<open>\<^verbatim>\<open>mmap(NULL, length, ...)\<close> fails for a zero length and when the kernel has no
  region to give; \<^verbatim>\<open>munmap(addr, length)\<close> fails for a zero length.\<close>

definition mmap :: "size_t \<Rightarrow> state \<Rightarrow> size_t option \<times> state" where
  "mmap len s =
     (if len = 0 then (None, s)
      else case mmap_pool s of
             [] \<Rightarrow> (None, s)
           | a # rest \<Rightarrow> (Some a, s\<lparr>mmap_pool := rest, mappings := (a, len) # mappings s\<rparr>))"

definition munmap :: "size_t \<Rightarrow> size_t \<Rightarrow> state \<Rightarrow> bool \<times> state" where
  "munmap a len s =
     (if len = 0 then (False, s)
      else (True, s\<lparr>mappings := removeAll (a, len) (mappings s)\<rparr>))"

text \<open>
  \<^verbatim>\<open>memset(dst, 0, n)\<close> and \<^verbatim>\<open>memmove(dst, src, n)\<close> on the payload bytes. An access
  returns only when its \<open>n\<close> bytes lie in memory the process has obtained from the kernel:
  between the first and the current program break, or inside one mapping. Any other
  access faults (or lands in memory that is not the allocator's), and the call does not
  return: the result is \<open>None\<close>. An access of no byte always returns.
\<close>

definition accessible :: "state \<Rightarrow> ptr \<Rightarrow> size_t \<Rightarrow> bool" where
  "accessible s p n =
     (n = 0
      \<or> (unat (brk_min s) \<le> unat (addr_of p) \<and> unat (addr_of p) + unat n \<le> unat (brk s))
      \<or> (\<exists>(a, len) \<in> set (mappings s).
             unat a \<le> unat (addr_of p) \<and> unat (addr_of p) + unat n \<le> unat a + unat len))"

definition memset0 :: "ptr \<Rightarrow> size_t \<Rightarrow> state \<Rightarrow> state option" where
  "memset0 dst n s =
     (if accessible s dst n
      then Some (s\<lparr>bytes := (\<lambda>x. if x - addr_of dst < n then 0 else bytes s x)\<rparr>)
      else None)"

definition memmove :: "ptr \<Rightarrow> ptr \<Rightarrow> size_t \<Rightarrow> state \<Rightarrow> state option" where
  "memmove dst src n s =
     (if accessible s dst n \<and> accessible s src n
      then Some (s\<lparr>bytes := (\<lambda>x. if x - addr_of dst < n
                                   then bytes s (addr_of src + (x - addr_of dst))
                                   else bytes s x)\<rparr>)
      else None)"

section \<open>The allocator\<close>

text \<open>
  Functions that run a list traversal or access payload bytes return an option: \<open>None\<close>
  stands for a call that does not return (the traversal never reaches \<^verbatim>\<open>head\<close> again,
  it dereferences a null link, \<^verbatim>\<open>memset\<close> or \<^verbatim>\<open>memmove\<close> leaves the memory of the
  process, or \<^verbatim>\<open>DIE\<close> exits the process).
\<close>

definition head_init :: "state \<Rightarrow> state" where
  "head_init s =
     (set_next HEAD HEAD (set_prev HEAD HEAD (set_size HEAD 0 s)))\<lparr>head_init_done := True\<rparr>"

definition list_add_last :: "ptr \<Rightarrow> state \<Rightarrow> state" where
  "list_add_last block s =
     (let last = prev (mem s HEAD);
          s1 = set_next last block s;
          s2 = set_prev block last s1;
          s3 = set_next block HEAD s2
      in set_prev HEAD block s3)"

definition list_remove_block :: "ptr \<Rightarrow> state \<Rightarrow> state" where
  "list_remove_block block s =
     (let s1 = set_next (prev (mem s block)) (bnext (mem s block)) s
      in set_prev (bnext (mem s1 block)) (prev (mem s1 block)) s1)"

definition map_block_in_mem :: "size_t \<Rightarrow> state \<Rightarrow> ptr \<times> state" where
  "map_block_in_mem sz s =
     (let requested_size = META_BLOCK_SIZE + sz
      in case mmap requested_size s of
           (None, s1) \<Rightarrow> (NULL, s1)
         | (Some a, s1) \<Rightarrow>
             (let block = At a;
                  s2 = set_size block sz s1;
                  s3 = set_status block STATUS_MAPPED s2
              in (block, list_add_last block s3)))"

definition prealloc_heap_attempt :: "state \<Rightarrow> bool \<times> state" where
  "prealloc_heap_attempt s =
     (if heap_prealloc_done s then (True, s)
      else case sbrk HEAP_PREALLOC_SIZE s of
             (None, s1) \<Rightarrow> (False, s1)
           | (Some request_block, s1) \<Rightarrow>
               (let prealloc_block = At request_block;
                    s2 = set_size prealloc_block (HEAP_PREALLOC_SIZE - META_BLOCK_SIZE) s1;
                    s3 = set_status prealloc_block STATUS_FREE s2;
                    s4 = list_add_last prealloc_block s3
                in (True, s4\<lparr>heap_prealloc_done := True\<rparr>)))"

partial_function (option) find_best_block_loop ::
  "state \<Rightarrow> size_t \<Rightarrow> ptr \<Rightarrow> ptr \<Rightarrow> ptr option" where
  "find_best_block_loop s sz iterator best_fit =
     (if iterator = HEAD then Some best_fit
      else if iterator = NULL then None
      else find_best_block_loop s sz (bnext (mem s iterator))
             (if status (mem s iterator) = STATUS_FREE \<and> ALIGN sz \<le> bsize (mem s iterator)
                 \<and> (best_fit = NULL \<or> bsize (mem s iterator) < bsize (mem s best_fit))
              then iterator else best_fit))"

definition find_best_block :: "size_t \<Rightarrow> state \<Rightarrow> ptr option" where
  "find_best_block sz s = find_best_block_loop s sz (bnext (mem s HEAD)) NULL"

text \<open>The earlier draft of the search, \<^verbatim>\<open>src/src/osmem.c\<close> lines 111-131: it does not
  align the size and returns at once on a block of exactly the requested size.\<close>

partial_function (option) find_best_block_draft_loop ::
  "state \<Rightarrow> size_t \<Rightarrow> ptr \<Rightarrow> ptr \<Rightarrow> ptr option" where
  "find_best_block_draft_loop s sz iterator best_fit =
     (if iterator = HEAD then Some best_fit
      else if iterator = NULL then None
      else if status (mem s iterator) = STATUS_FREE \<and> sz \<le> bsize (mem s iterator)
              \<and> bsize (mem s iterator) = sz
           then Some iterator
      else find_best_block_draft_loop s sz (bnext (mem s iterator))
             (if status (mem s iterator) = STATUS_FREE \<and> sz \<le> bsize (mem s iterator)
                 \<and> (best_fit = NULL \<or> bsize (mem s iterator) < bsize (mem s best_fit))
              then iterator else best_fit))"

definition find_best_block_draft :: "size_t \<Rightarrow> state \<Rightarrow> ptr option" where
  "find_best_block_draft sz s = find_best_block_draft_loop s sz (bnext (mem s HEAD)) NULL"

definition split_block_attempt :: "ptr \<Rightarrow> size_t \<Rightarrow> state \<Rightarrow> state" where
  "split_block_attempt block sz s =
     (if bsize (mem s block) = ALIGN sz then s
      else let minimum_occupied_size = ALIGN sz + META_BLOCK_SIZE + 1
           in if bsize (mem s block) \<le> minimum_occupied_size then s
              else let new_block = ptr_add block (META_BLOCK_SIZE + ALIGN sz);
                       s1 = set_size new_block
                              (bsize (mem s block) - ALIGN sz - META_BLOCK_SIZE) s;
                       s2 = set_status new_block STATUS_FREE s1;
                       s3 = set_size block (ALIGN sz) s2;
                       s4 = set_next new_block (bnext (mem s3 block)) s3;
                       s5 = set_prev new_block block s4;
                       s6 = set_prev (bnext (mem s5 block)) new_block s5
                   in set_next block new_block s6)"

partial_function (option) get_last_on_heap_loop :: "state \<Rightarrow> ptr \<Rightarrow> ptr option" where
  "get_last_on_heap_loop s iterator =
     (if iterator = NULL then None
      else if status (mem s iterator) = STATUS_MAPPED \<and> iterator \<noteq> HEAD
           then get_last_on_heap_loop s (prev (mem s iterator))
      else Some iterator)"

definition get_last_on_heap :: "state \<Rightarrow> ptr option" where
  "get_last_on_heap s =
     (case get_last_on_heap_loop s (prev (mem s HEAD)) of
        None \<Rightarrow> None
      | Some iterator \<Rightarrow> if iterator = HEAD then Some NULL else Some iterator)"

definition expand_last_block :: "size_t \<Rightarrow> state \<Rightarrow> (ptr \<times> state) option" where
  "expand_last_block sz s =
     (case get_last_on_heap s of
        None \<Rightarrow> None
      | Some last_block \<Rightarrow>
          if last_block = NULL then Some (NULL, s)
          else let additional_needed_size = sz - bsize (mem s last_block)
               in (case sbrk additional_needed_size s of
                     (None, s1) \<Rightarrow> Some (NULL, s1)
                   | (Some heap_end, s1) \<Rightarrow>
                       Some (last_block,
                             set_size last_block
                               (bsize (mem s1 last_block) + additional_needed_size) s1)))"

definition coalesce_blocks :: "ptr \<Rightarrow> ptr \<Rightarrow> state \<Rightarrow> state" where
  "coalesce_blocks block1 block2 s =
     list_remove_block block2
       (set_size block1 (bsize (mem s block1) + (META_BLOCK_SIZE + bsize (mem s block2))) s)"

partial_function (option) coalesce_attempt_loop ::
  "state \<Rightarrow> ptr \<Rightarrow> ptr \<Rightarrow> state option" where
  "coalesce_attempt_loop s iterator to_coalesce1 =
     (if iterator = HEAD then Some s
      else if iterator = NULL then None
      else if status (mem s iterator) = STATUS_ALLOC
           then coalesce_attempt_loop s (bnext (mem s iterator)) NULL
      else if status (mem s iterator) = STATUS_MAPPED
           then coalesce_attempt_loop s (bnext (mem s iterator)) to_coalesce1
      else if to_coalesce1 = NULL
           then coalesce_attempt_loop s (bnext (mem s iterator)) iterator
      else coalesce_attempt_loop (coalesce_blocks to_coalesce1 iterator s)
             (bnext (mem s iterator)) to_coalesce1)"

definition coalesce_attempt :: "state \<Rightarrow> state option" where
  "coalesce_attempt s = coalesce_attempt_loop s (bnext (mem s HEAD)) NULL"

partial_function (option) search_block_in_list_loop ::
  "state \<Rightarrow> ptr \<Rightarrow> ptr \<Rightarrow> ptr option" where
  "search_block_in_list_loop s p iterator =
     (if iterator = HEAD then Some NULL
      else if payload iterator = p then Some iterator
      else if iterator = NULL then None
      else search_block_in_list_loop s p (bnext (mem s iterator)))"

definition search_block_in_list :: "ptr \<Rightarrow> state \<Rightarrow> ptr option" where
  "search_block_in_list p s = search_block_in_list_loop s p (bnext (mem s HEAD))"

definition get_free_heap_block :: "size_t \<Rightarrow> state \<Rightarrow> (ptr \<times> state) option" where
  "get_free_heap_block sz s =
     (case prealloc_heap_attempt s of
        (False, s1) \<Rightarrow> Some (NULL, s1)
      | (True, s1) \<Rightarrow>
          (case coalesce_attempt s1 of
             None \<Rightarrow> None
           | Some s2 \<Rightarrow>
               (case find_best_block (ALIGN sz) s2 of
                  None \<Rightarrow> None
                | Some best_block \<Rightarrow>
                    if best_block \<noteq> NULL
                    then Some (best_block, split_block_attempt best_block (ALIGN sz) s2)
                    else
                      (case get_last_on_heap s2 of
                         None \<Rightarrow> None
                       | Some last_on_heap \<Rightarrow>
                           if last_on_heap \<noteq> NULL
                              \<and> status (mem s2 last_on_heap) = STATUS_FREE
                           then expand_last_block (ALIGN sz) s2
                           else
                             (case sbrk (META_BLOCK_SIZE + ALIGN sz) s2 of
                                (None, s3) \<Rightarrow> Some (NULL, s3)
                              | (Some request_block, s3) \<Rightarrow>
                                  (let new_block = At request_block;
                                       s4 = set_size new_block (ALIGN sz) s3
                                   in Some (new_block, list_add_last new_block s4)))))))"

definition os_malloc :: "size_t \<Rightarrow> state \<Rightarrow> (ptr \<times> state) option" where
  "os_malloc sz s =
     (if sz = 0 then Some (NULL, s)
      else let s1 = (if \<not> head_init_done s then head_init s else s);
               aligned_size = ALIGN sz
           in if aligned_size + META_BLOCK_SIZE < MMAP_THRESHOLD
              then (case get_free_heap_block aligned_size s1 of
                      None \<Rightarrow> None
                    | Some (heap_block, s2) \<Rightarrow>
                        if heap_block = NULL then Some (NULL, s2)
                        else Some (payload heap_block,
                                   set_status heap_block STATUS_ALLOC s2))
              else (case map_block_in_mem aligned_size s1 of
                      (block, s2) \<Rightarrow>
                        if block = NULL then Some (NULL, s2)
                        else Some (payload block, s2)))"

definition delete_mapped_block :: "ptr \<Rightarrow> state \<Rightarrow> state option" where
  "delete_mapped_block block s =
     (if status (mem s block) \<noteq> STATUS_MAPPED then Some s
      else let s1 = list_remove_block block s
           in case munmap (addr_of block) (bsize (mem s1 block) + META_BLOCK_SIZE) s1 of
                (False, s2) \<Rightarrow> None
              | (True, s2) \<Rightarrow> Some s2)"

definition os_free :: "ptr \<Rightarrow> state \<Rightarrow> state option" where
  "os_free p s =
     (if p = NULL then Some s
      else case search_block_in_list p s of
             None \<Rightarrow> None
           | Some block \<Rightarrow>
               if block = NULL then Some s
               else if status (mem s block) = STATUS_FREE then Some s
               else if status (mem s block) = STATUS_MAPPED then delete_mapped_block block s
               else Some (set_status block STATUS_FREE s))"

definition os_calloc :: "size_t \<Rightarrow> size_t \<Rightarrow> state \<Rightarrow> (ptr \<times> state) option" where
  "os_calloc nmemb sz s =
     (if nmemb = 0 \<or> sz = 0 then Some (NULL, s)
      else let s1 = (if \<not> head_init_done s then head_init s else s);
               aligned_size = ALIGN (sz * nmemb)
           in if aligned_size < sz \<or> aligned_size < nmemb then Some (NULL, s1)
              else if sint (aligned_size + META_BLOCK_SIZE) < sint getpagesize
              then (case get_free_heap_block aligned_size s1 of
                      None \<Rightarrow> None
                    | Some (heap_block, s2) \<Rightarrow>
                        if heap_block = NULL then Some (NULL, s2)
                        else (case memset0 (payload heap_block) aligned_size
                                     (set_status heap_block STATUS_ALLOC s2) of
                                None \<Rightarrow> None
                              | Some s3 \<Rightarrow> Some (payload heap_block, s3)))
              else (case map_block_in_mem aligned_size s1 of
                      (block, s2) \<Rightarrow>
                        if block = NULL then Some (NULL, s2)
                        else (case memset0 (payload block) aligned_size s2 of
                                None \<Rightarrow> None
                              | Some s3 \<Rightarrow> Some (payload block, s3))))"

definition copy_block :: "ptr \<Rightarrow> ptr \<Rightarrow> size_t \<Rightarrow> state \<Rightarrow> state option" where
  "copy_block dest src n s = memmove (payload dest) (payload src) n s"

definition shrink_realloc :: "ptr \<Rightarrow> size_t \<Rightarrow> state \<Rightarrow> (ptr \<times> state) option" where
  "shrink_realloc block sz s =
     (if status (mem s block) = STATUS_MAPPED
      then if MMAP_THRESHOLD \<le> sz
           then (case map_block_in_mem sz s of
                   (new_map_block, s1) \<Rightarrow>
                     if new_map_block = NULL then Some (NULL, s1)
                     else (case copy_block new_map_block block
                                  (bsize (mem s1 new_map_block)) s1 of
                             None \<Rightarrow> None
                           | Some s2 \<Rightarrow>
                               (case delete_mapped_block block s2 of
                                  None \<Rightarrow> None
                                | Some s3 \<Rightarrow> Some (payload new_map_block, s3))))
           else (case get_free_heap_block sz s of
                   None \<Rightarrow> None
                 | Some (heap_block, s1) \<Rightarrow>
                     if heap_block = NULL then Some (NULL, s1)
                     else (let s2 = set_status heap_block STATUS_ALLOC s1
                           in case copy_block heap_block block (bsize (mem s2 heap_block)) s2 of
                                None \<Rightarrow> None
                              | Some s3 \<Rightarrow>
                                  (case delete_mapped_block block s3 of
                                     None \<Rightarrow> None
                                   | Some s4 \<Rightarrow> Some (payload heap_block, s4))))
      else Some (payload block, split_block_attempt block sz s))"

partial_function (option) block_coalesce_to_size_loop ::
  "state \<Rightarrow> ptr \<Rightarrow> size_t \<Rightarrow> ptr \<Rightarrow> state option" where
  "block_coalesce_to_size_loop s block sz iterator =
     (if iterator = HEAD then Some s
      else if iterator = NULL then None
      else if status (mem s iterator) = STATUS_FREE
           then (let s1 = coalesce_blocks block iterator s
                 in if sz \<le> bsize (mem s1 block) then Some s1
                    else block_coalesce_to_size_loop s1 block sz (bnext (mem s1 iterator)))
      else if status (mem s iterator) = STATUS_MAPPED
           then block_coalesce_to_size_loop s block sz (bnext (mem s iterator))
      else Some s)"

definition block_coalesce_to_size :: "ptr \<Rightarrow> size_t \<Rightarrow> state \<Rightarrow> state option" where
  "block_coalesce_to_size block sz s =
     block_coalesce_to_size_loop s block sz (bnext (mem s block))"

definition extend_realloc :: "ptr \<Rightarrow> size_t \<Rightarrow> state \<Rightarrow> (ptr \<times> state) option" where
  "extend_realloc block sz s =
     (if status (mem s block) = STATUS_MAPPED
      then (case map_block_in_mem sz s of
              (new_map_block, s1) \<Rightarrow>
                if new_map_block = NULL then Some (NULL, s1)
                else (case copy_block new_map_block block (bsize (mem s1 block)) s1 of
                        None \<Rightarrow> None
                      | Some s2 \<Rightarrow>
                          (case delete_mapped_block block s2 of
                             None \<Rightarrow> None
                           | Some s3 \<Rightarrow> Some (payload new_map_block, s3))))
      else if MMAP_THRESHOLD \<le> sz
      then (case map_block_in_mem sz s of
              (new_map_block, s1) \<Rightarrow>
                if new_map_block = NULL then Some (NULL, s1)
                else (case copy_block new_map_block block (bsize (mem s1 block)) s1 of
                        None \<Rightarrow> None
                      | Some s2 \<Rightarrow>
                          Some (payload new_map_block, set_status block STATUS_FREE s2)))
      else (case get_last_on_heap s of
              None \<Rightarrow> None
            | Some last_on_heap \<Rightarrow>
                if block = last_on_heap
                then (case expand_last_block sz s of
                        None \<Rightarrow> None
                      | Some (block1, s1) \<Rightarrow>
                          if block1 = NULL then Some (NULL, s1)
                          else Some (payload block1, s1))
                else (let original_block_size = bsize (mem s block)
                      in case block_coalesce_to_size block sz s of
                           None \<Rightarrow> None
                         | Some s1 \<Rightarrow>
                             if sz \<le> bsize (mem s1 block)
                             then Some (payload block, split_block_attempt block sz s1)
                             else (case get_free_heap_block sz s1 of
                                     None \<Rightarrow> None
                                   | Some (heap_block, s2) \<Rightarrow>
                                       if heap_block = NULL then Some (NULL, s2)
                                       else (let s3 = set_status heap_block STATUS_ALLOC s2
                                             in case copy_block heap_block block
                                                       original_block_size s3 of
                                                  None \<Rightarrow> None
                                                | Some s4 \<Rightarrow>
                                                    Some (payload heap_block,
                                                          set_status block STATUS_FREE
                                                            s4))))))"

definition os_realloc :: "ptr \<Rightarrow> size_t \<Rightarrow> state \<Rightarrow> (ptr \<times> state) option" where
  "os_realloc p sz s =
     (if p = NULL then os_malloc sz s
      else if sz = 0
      then (case os_free p s of None \<Rightarrow> None | Some s1 \<Rightarrow> Some (NULL, s1))
      else case search_block_in_list p s of
             None \<Rightarrow> None
           | Some req_block \<Rightarrow>
               if req_block = NULL \<or> status (mem s req_block) = STATUS_FREE
               then Some (NULL, s)
               else let aligned_size = ALIGN sz
                    in if aligned_size = bsize (mem s req_block)
                       then Some (payload req_block, s)
                       else if bsize (mem s req_block) < aligned_size
                       then extend_realloc req_block aligned_size s
                       else if aligned_size < bsize (mem s req_block)
                       then shrink_realloc req_block aligned_size s
                       else Some (NULL, s))"

text \<open>The state of the process before the first call: the globals are zero-initialised
  (a zero status is \<^verbatim>\<open>STATUS_FREE\<close>), nothing is mapped, and the break is where the
  kernel put it.\<close>

definition zero_meta :: block_meta where
  "zero_meta = \<lparr>bsize = 0, status = STATUS_FREE, prev = NULL, bnext = NULL\<rparr>"

definition initial_state :: "size_t \<Rightarrow> size_t \<Rightarrow> size_t list \<Rightarrow> state" where
  "initial_state brk0 limit pool =
     \<lparr>mem = (\<lambda>p. zero_meta), bytes = (\<lambda>x. 0), head_init_done = False,
      heap_prealloc_done = False, brk = brk0, brk_min = brk0, brk_max = limit,
      sbrk_calls = [], mmap_pool = pool, mappings = []\<rparr>"

definition SIZE_MAX :: size_t where
  "SIZE_MAX = 18446744073709551615"

section \<open>Well-formed lists and the notions the claims use\<close>

text \<open>
  \<open>chain m p xs\<close>: following \<^verbatim>\<open>next\<close> from \<open>p\<close> visits exactly the blocks \<open>xs\<close> and then
  \<^verbatim>\<open>head\<close>, every \<^verbatim>\<open>prev\<close> link points back, and no block is null or the sentinel.
  \<open>dlist s xs\<close>: the circular list of state \<open>s\<close> holds the blocks \<open>xs\<close>, in this order.
\<close>

fun chain :: "(ptr \<Rightarrow> block_meta) \<Rightarrow> ptr \<Rightarrow> ptr list \<Rightarrow> bool" where
  "chain m p [] = (bnext (m p) = HEAD \<and> prev (m HEAD) = p)"
| "chain m p (x # xs) =
     (bnext (m p) = x \<and> prev (m x) = p \<and> x \<noteq> HEAD \<and> x \<noteq> NULL \<and> chain m x xs)"

definition dlist :: "state \<Rightarrow> ptr list \<Rightarrow> bool" where
  "dlist s xs = (chain (mem s) HEAD xs \<and> distinct xs)"

text \<open>A size is aligned when it is a multiple of 8.\<close>

definition aligned8 :: "size_t \<Rightarrow> bool" where
  "aligned8 a = (8 dvd unat a)"

text \<open>A block fits a request of \<open>a\<close> bytes when it is free and large enough.\<close>

definition fits :: "state \<Rightarrow> size_t \<Rightarrow> ptr \<Rightarrow> bool" where
  "fits s a x = (status (mem s x) = STATUS_FREE \<and> a \<le> bsize (mem s x))"

text \<open>The body of the loop of \<^verbatim>\<open>find_best_block\<close>, run over the blocks of the list.\<close>

fun best_fit_from :: "state \<Rightarrow> size_t \<Rightarrow> ptr \<Rightarrow> ptr list \<Rightarrow> ptr" where
  "best_fit_from s a best_fit [] = best_fit"
| "best_fit_from s a best_fit (x # xs) =
     best_fit_from s a
       (if status (mem s x) = STATUS_FREE \<and> a \<le> bsize (mem s x)
           \<and> (best_fit = NULL \<or> bsize (mem s x) < bsize (mem s best_fit))
        then x else best_fit) xs"

text \<open>The statuses of the heap-regime blocks of a list, in list order, and the property
  that no two neighbours among them are both free.\<close>

definition heap_statuses :: "state \<Rightarrow> ptr list \<Rightarrow> status_t list" where
  "heap_statuses s xs = filter (\<lambda>st. st \<noteq> STATUS_MAPPED) (map (\<lambda>x. status (mem s x)) xs)"

fun no_adjacent_free :: "status_t list \<Rightarrow> bool" where
  "no_adjacent_free (a # b # r) =
     (\<not> (a = STATUS_FREE \<and> b = STATUS_FREE) \<and> no_adjacent_free (b # r))"
| "no_adjacent_free r = True"

definition has_adjacent_free :: "ptr list \<Rightarrow> state \<Rightarrow> bool" where
  "has_adjacent_free xs s = (dlist s xs \<and> \<not> no_adjacent_free (heap_statuses s xs))"

text \<open>
  The layout of the heap. \<open>heap_blocks s xs\<close> are the heap-regime blocks of the list, in list
  order. \<open>tiles m a H e\<close>: the blocks \<open>H\<close>, each a descriptor followed by its payload, lie one
  after the other from address \<open>a\<close> to address \<open>e\<close>. \<open>heap_layout s xs\<close>: the list is
  well formed, its heap-regime blocks fill the program-break region from its start to the
  current break, the mapped blocks lie outside the range the break can reach, and no
  heap-regime block exists before the heap has been pre-allocated.
\<close>

definition heap_blocks :: "state \<Rightarrow> ptr list \<Rightarrow> ptr list" where
  "heap_blocks s xs = filter (\<lambda>x. status (mem s x) \<noteq> STATUS_MAPPED) xs"

fun tiles :: "(ptr \<Rightarrow> block_meta) \<Rightarrow> size_t \<Rightarrow> ptr list \<Rightarrow> size_t \<Rightarrow> bool" where
  "tiles m a [] e = (a = e)"
| "tiles m a (x # xs) e =
     (x = At a \<and> unat a + unat META_BLOCK_SIZE + unat (bsize (m x)) \<le> unat e
      \<and> tiles m (a + META_BLOCK_SIZE + bsize (m x)) xs e)"

definition heap_layout :: "state \<Rightarrow> ptr list \<Rightarrow> bool" where
  "heap_layout s xs =
     (dlist s xs
      \<and> tiles (mem s) (brk_min s) (heap_blocks s xs) (brk s)
      \<and> brk s \<le> brk_max s
      \<and> (\<forall>x\<in>set xs. status (mem s x) = STATUS_MAPPED \<longrightarrow>
            addr_of x < brk_min s \<or> brk_max s < addr_of x)
      \<and> (heap_prealloc_done s \<or> heap_blocks s xs = []))"

text \<open>\<open>coalesced s xs b0 e s' ys\<close>: what the coalesce pass makes of a list \<open>xs\<close> in state \<open>s\<close>
  whose heap blocks fill the addresses from \<open>b0\<close> to \<open>e\<close>.
  \<open>placed b s\<close>: the state once the caller of \<^verbatim>\<open>get_free_heap_block\<close> has marked the block
  it received as allocated.\<close>

definition coalesced :: "state \<Rightarrow> ptr list \<Rightarrow> size_t \<Rightarrow> size_t \<Rightarrow> state \<Rightarrow> ptr list \<Rightarrow> bool" where
  "coalesced s xs b0 e s' ys =
     (dlist s' ys \<and> set ys \<subseteq> set xs \<and> no_adjacent_free (heap_statuses s' ys)
      \<and> tiles (mem s') b0 (heap_blocks s' ys) e
      \<and> (\<forall>q. status (mem s' q) = status (mem s q)) \<and> s'\<lparr>mem := mem s\<rparr> = s)"

definition placed :: "ptr \<Rightarrow> state \<Rightarrow> state" where
  "placed b s = (if b = NULL then s else set_status b STATUS_ALLOC s)"

text \<open>Sequences of calls of the four operations; the pointers they return are dropped.\<close>

datatype call = Malloc size_t | Free ptr | Calloc size_t size_t | Realloc ptr size_t

fun exec_call :: "call \<Rightarrow> state \<Rightarrow> state option" where
  "exec_call (Malloc n) s = map_option snd (os_malloc n s)"
| "exec_call (Free p) s = os_free p s"
| "exec_call (Calloc n sz) s = map_option snd (os_calloc n sz s)"
| "exec_call (Realloc p n) s = map_option snd (os_realloc p n s)"

fun run :: "call list \<Rightarrow> state \<Rightarrow> state option" where
  "run [] s = Some s"
| "run (c # cs) s = (case exec_call c s of None \<Rightarrow> None | Some s1 \<Rightarrow> run cs s1)"

text \<open>
  A state to try the theorems on: four heap blocks that fill the pre-allocated 128 KiB
  and one mapped block, as after allocating 64, 32, 32, 130816 and 204800 bytes on a fresh
  process and freeing the first and the third block.
\<close>

definition example_state :: state where
  "example_state =
     \<lparr>mem = (\<lambda>p. zero_meta)
        (HEAD := \<lparr>bsize = 0, status = STATUS_FREE, prev = At 0x7f0000000000, bnext = At 0x1000\<rparr>,
         At 0x1000 := \<lparr>bsize = 64, status = STATUS_FREE, prev = HEAD, bnext = At 0x1060\<rparr>,
         At 0x1060 := \<lparr>bsize = 32, status = STATUS_ALLOC, prev = At 0x1000, bnext = At 0x10A0\<rparr>,
         At 0x10A0 := \<lparr>bsize = 32, status = STATUS_FREE, prev = At 0x1060, bnext = At 0x10E0\<rparr>,
         At 0x10E0 := \<lparr>bsize = 130816, status = STATUS_ALLOC, prev = At 0x10A0,
                        bnext = At 0x7f0000000000\<rparr>,
         At 0x7f0000000000 := \<lparr>bsize = 204800, status = STATUS_MAPPED, prev = At 0x10E0,
                                 bnext = HEAD\<rparr>),
      bytes = (\<lambda>x. 0), head_init_done = True, heap_prealloc_done = True,
      brk = 0x21000, brk_min = 0x1000, brk_max = 0x100000, sbrk_calls = [131072],
      mmap_pool = [0x7f0000100000], mappings = [(0x7f0000000000, 204832)]\<rparr>"

definition example_blocks :: "ptr list" where
  "example_blocks = [At 0x1000, At 0x1060, At 0x10A0, At 0x10E0, At 0x7f0000000000]"

declare find_best_block_loop.simps [code] get_last_on_heap_loop.simps [code]
  coalesce_attempt_loop.simps [code] search_block_in_list_loop.simps [code]
  block_coalesce_to_size_loop.simps [code] find_best_block_draft_loop.simps [code]

section \<open>Facts about sizes and alignment\<close>

lemma META_BLOCK_SIZE_eq: "META_BLOCK_SIZE = 32"
  by (simp add: META_BLOCK_SIZE_def sizeof_block_meta_def ALIGN_def ALIGNMENT_def)

lemma seven_mask: "(7 :: size_t) = mask 3"
  by (simp add: mask_eq_exp_minus_1)

lemma ALIGN_aligned8: "aligned8 a \<Longrightarrow> ALIGN a = a"
proof -
  assume "aligned8 a"
  then have z: "a AND mask 3 = 0"
    using and_mask_dvd_nat [of 3 a] by (simp add: aligned8_def)
  then have "a + mask 3 = a OR mask 3"
    by (rule disjunctive_add_eq_or)
  moreover have "(a OR mask 3) AND NOT (mask 3) = a AND NOT (mask 3)"
    by (simp add: bit.conj_disj_distrib2)
  moreover have "a AND NOT (mask 3) = a"
  proof -
    have "a = a AND (mask 3 OR NOT (mask 3))" by simp
    also have "\<dots> = (a AND mask 3) OR (a AND NOT (mask 3))"
      by (simp only: bit.conj_disj_distrib)
    finally show ?thesis using z by simp
  qed
  ultimately show ?thesis
    by (simp add: ALIGN_def ALIGNMENT_def seven_mask)
qed

lemma unat_plus33:
  fixes a :: size_t
  assumes "unat a + 40 < 2 ^ 64"
  shows "unat (a + 32 + 1) = unat a + 33"
proof -
  have "unat (a + 33) = (unat a + unat (33 :: size_t)) mod 2 ^ 64"
    by (simp only: unat_word_ariths) simp
  also have "\<dots> = unat a + 33" using assms by simp
  finally show ?thesis by (simp add: add.assoc)
qed

lemma dvd8_gap:
  fixes x y :: nat
  assumes "8 dvd x" "8 dvd y"
  shows "x + 33 < y \<longleftrightarrow> x + 40 \<le> y"
proof -
  from assms obtain i j where "x = 8 * i" "y = 8 * j" by (auto elim!: dvdE)
  then show ?thesis by arith
qed

lemma split_threshold:
  fixes a sz :: size_t
  assumes "aligned8 a" "aligned8 sz" "unat a + 40 < 2 ^ 64"
  shows "(sz \<noteq> a \<and> \<not> sz \<le> a + 32 + 1) \<longleftrightarrow> unat a + 32 + 8 \<le> unat sz"
proof -
  have "(\<not> sz \<le> a + 32 + 1) \<longleftrightarrow> unat a + 33 < unat sz"
    using unat_plus33 [OF assms(3)] by (simp add: word_le_nat_alt not_le)
  moreover have "sz \<noteq> a \<longleftrightarrow> unat sz \<noteq> unat a"
    by (simp add: word_unat_eq_iff)
  moreover have "unat a + 33 < unat sz \<longleftrightarrow> unat a + 40 \<le> unat sz"
    using assms(1,2) unfolding aligned8_def by (rule dvd8_gap)
  ultimately show ?thesis by auto
qed

lemma unat_META: "unat META_BLOCK_SIZE = 32"
  by (simp add: META_BLOCK_SIZE_eq)

lemma split_condition:
  assumes "aligned8 a" "aligned8 sz" "unat a + unat META_BLOCK_SIZE + 8 < 2 ^ 64"
  shows "(sz \<noteq> ALIGN a \<and> \<not> sz \<le> ALIGN a + META_BLOCK_SIZE + 1)
           \<longleftrightarrow> unat a + unat META_BLOCK_SIZE + 8 \<le> unat sz"
  using split_threshold [of a sz] assms
  by (simp add: ALIGN_aligned8 META_BLOCK_SIZE_eq)

section \<open>Facts about the list\<close>

lemma chain_not_HEAD: "chain m p xs \<Longrightarrow> HEAD \<notin> set xs \<and> NULL \<notin> set xs"
  by (induction xs arbitrary: p) auto

lemma chain_split:
  "chain m p (pre @ x # post) \<Longrightarrow>
     bnext (m x) = hd (post @ [HEAD]) \<and> prev (m x) = last (p # pre) \<and> x \<noteq> HEAD \<and> x \<noteq> NULL
     \<and> chain m x post \<and> bnext (m (last (p # pre))) = x \<and> prev (m (hd (post @ [HEAD]))) = x"
proof (induction pre arbitrary: p)
  case Nil
  then show ?case by (cases post) auto
next
  case (Cons q pre)
  then show ?case by auto
qed

lemma chain_cong:
  "\<forall>q \<in> insert p (set xs). bnext (m' q) = bnext (m q) \<Longrightarrow>
   \<forall>q \<in> insert HEAD (set xs). prev (m' q) = prev (m q) \<Longrightarrow>
   chain m' p xs = chain m p xs"
  by (induction xs arbitrary: p) auto

lemma dlist_split:
  assumes "dlist s (pre @ x # post)"
  shows "bnext (mem s x) = hd (post @ [HEAD])" "prev (mem s x) = last (HEAD # pre)"
    "x \<noteq> HEAD" "x \<noteq> NULL" "x \<noteq> hd (post @ [HEAD])" "x \<noteq> last (HEAD # pre)"
    "prev (mem s (hd (post @ [HEAD]))) = x" "bnext (mem s (last (HEAD # pre))) = x"
proof -
  from assms have c: "chain (mem s) HEAD (pre @ x # post)" and d: "distinct (pre @ x # post)"
    by (simp_all add: dlist_def)
  from chain_split [OF c] show "bnext (mem s x) = hd (post @ [HEAD])"
    "prev (mem s x) = last (HEAD # pre)" "x \<noteq> HEAD" "x \<noteq> NULL"
    "prev (mem s (hd (post @ [HEAD]))) = x" "bnext (mem s (last (HEAD # pre))) = x"
    by simp_all
  from d \<open>x \<noteq> HEAD\<close> show "x \<noteq> hd (post @ [HEAD])"
    by (cases post) auto
  from d \<open>x \<noteq> HEAD\<close> show "x \<noteq> last (HEAD # pre)"
    by (cases pre rule: rev_cases) auto
qed

lemma chain_remove:
  assumes "chain m p (pre @ x # post)" "distinct (pre @ x # post)" "p \<notin> set (pre @ x # post)"
    and "\<forall>q. bnext (m' q) = (if q = last (p # pre) then hd (post @ [HEAD]) else bnext (m q))"
    and "\<forall>q. prev (m' q) = (if q = hd (post @ [HEAD]) then last (p # pre) else prev (m q))"
  shows "chain m' p (pre @ post)"
  using assms
proof (induction pre arbitrary: p)
  case Nil
  show ?case
  proof (cases post)
    case Nil
    with Nil.prems show ?thesis by auto
  next
    case (Cons y post')
    from Nil.prems Cons have c: "chain m y post'" and ne: "p \<noteq> y" "y \<noteq> HEAD" "y \<noteq> NULL"
      "y \<notin> set post'" "p \<notin> set post'"
      by auto
    have "chain m' y post' = chain m y post'"
      by (rule chain_cong) (use ne Nil.prems(4,5) Cons in auto)
    with c ne show ?thesis using Cons Nil.prems(4,5) by simp
  qed
next
  case (Cons q pre)
  from Cons.prems have c: "chain m q (pre @ x # post)" and d: "distinct (pre @ x # post)"
    and q: "q \<notin> set (pre @ x # post)" "bnext (m p) = q" "prev (m q) = p" "q \<noteq> HEAD" "q \<noteq> NULL"
    and p: "p \<noteq> q" "p \<notin> set pre"
    by auto
  from Cons.prems(4,5) have
    b: "\<forall>r. bnext (m' r) = (if r = last (q # pre) then hd (post @ [HEAD]) else bnext (m r))"
    and v: "\<forall>r. prev (m' r) = (if r = hd (post @ [HEAD]) then last (q # pre) else prev (m r))"
    by simp_all
  from Cons.IH [OF c d q(1) b v] have ih: "chain m' q (pre @ post)" .
  have pa: "p \<noteq> last (q # pre)" using p by (cases pre rule: rev_cases) auto
  have qn: "q \<noteq> hd (post @ [HEAD])" using q by (cases post) auto
  have "bnext (m' p) = q" using pa q(2) b by simp
  moreover have "prev (m' q) = p" using qn q(3) v by simp
  ultimately show ?case using ih q by simp
qed

lemma list_remove_block_links:
  assumes "dlist s (pre @ x # post)"
  shows "bnext (mem (list_remove_block x s) q)
           = (if q = last (HEAD # pre) then hd (post @ [HEAD]) else bnext (mem s q))"
    and "prev (mem (list_remove_block x s) q)
           = (if q = hd (post @ [HEAD]) then last (HEAD # pre) else prev (mem s q))"
  using dlist_split [OF assms]
  by (auto simp add: list_remove_block_def set_next_def set_prev_def Let_def)

lemma list_remove_block_dlist:
  assumes "dlist s (pre @ x # post)"
  shows "dlist (list_remove_block x s) (pre @ post)"
proof -
  from assms have c: "chain (mem s) HEAD (pre @ x # post)" and d: "distinct (pre @ x # post)"
    by (simp_all add: dlist_def)
  have h: "HEAD \<notin> set (pre @ x # post)" using chain_not_HEAD [OF c] by simp
  have "chain (mem (list_remove_block x s)) HEAD (pre @ post)"
    by (rule chain_remove [OF c d h]) (simp_all add: list_remove_block_links [OF assms])
  with d show ?thesis by (simp add: dlist_def)
qed

lemma list_remove_block_frame:
  "status (mem (list_remove_block x s) q) = status (mem s q)"
  "bsize (mem (list_remove_block x s) q) = bsize (mem s q)"
  "bytes (list_remove_block x s) = bytes s"
  "brk (list_remove_block x s) = brk s"
  "mappings (list_remove_block x s) = mappings s"
  by (simp_all add: Let_def list_remove_block_def set_next_def set_prev_def)

lemma chain_insert:
  assumes "chain m p (pre @ b # post)" "distinct (pre @ b # post)" "p \<notin> set (pre @ b # post)"
    and "new \<notin> set (pre @ b # post)" "new \<noteq> p" "new \<noteq> HEAD" "new \<noteq> NULL"
    and "\<forall>q. bnext (m' q) = (if q = b then new else if q = new then hd (post @ [HEAD]) else bnext (m q))"
    and "\<forall>q. prev (m' q) = (if q = new then b else if q = hd (post @ [HEAD]) then new else prev (m q))"
  shows "chain m' p (pre @ b # new # post)"
  using assms
proof (induction pre arbitrary: p)
  case Nil
  from Nil.prems have b: "bnext (m p) = b" "prev (m b) = p" "b \<noteq> HEAD" "b \<noteq> NULL" "chain m b post"
    "b \<notin> set post" "p \<noteq> b" "new \<noteq> b" "new \<notin> set post" "p \<notin> set post" "distinct post"
    by auto
  have bn: "b \<noteq> hd (post @ [HEAD])" using b by (cases post) auto
  have tail: "chain m' new post"
  proof (cases post)
    case Nil
    then show ?thesis using Nil.prems(6,8,9) b by auto
  next
    case (Cons y post')
    with b have c: "chain m y post'" and ne: "y \<noteq> HEAD" "y \<noteq> NULL" "y \<noteq> b" "y \<noteq> new"
      "y \<notin> set post'" "b \<notin> set post'" "new \<notin> set post'"
      by auto
    have "chain m' y post' = chain m y post'"
      by (rule chain_cong) (use ne Nil.prems(6,7,8,9) Cons in auto)
    with c ne show ?thesis using Cons Nil.prems(6,7,8,9) b(8) by simp
  qed
  have "bnext (m' p) = b" using Nil.prems(8) b \<open>new \<noteq> p\<close> by simp
  moreover have "prev (m' b) = p" using Nil.prems(9) b bn by simp
  moreover have "bnext (m' b) = new" using Nil.prems(8) by simp
  moreover have "prev (m' new) = b" using Nil.prems(9) by simp
  ultimately show ?case using tail b Nil.prems(6,7) by simp
next
  case (Cons q pre)
  from Cons.prems have c: "chain m q (pre @ b # post)" and d: "distinct (pre @ b # post)"
    and q: "q \<notin> set (pre @ b # post)" "bnext (m p) = q" "prev (m q) = p" "q \<noteq> HEAD" "q \<noteq> NULL"
    and p: "p \<noteq> q" "p \<noteq> b" "new \<noteq> q" "new \<notin> set (pre @ b # post)" "q \<noteq> b"
    by auto
  from Cons.IH [OF c d q(1) p(4) p(3) Cons.prems(6,7,8,9)]
  have ih: "chain m' q (pre @ b # new # post)" .
  have qn: "q \<noteq> hd (post @ [HEAD])" using q by (cases post) auto
  have "bnext (m' p) = q" using Cons.prems(8) p q \<open>new \<noteq> p\<close> by simp
  moreover have "prev (m' q) = p" using Cons.prems(9) qn p q by simp
  ultimately show ?case using ih q by simp
qed

lemma split_happens_fields:
  assumes "dlist s (pre @ b # post)"
    and "new = ptr_add b (META_BLOCK_SIZE + ALIGN a)"
    and "new \<notin> set (pre @ b # post)"
    and "bsize (mem s b) \<noteq> ALIGN a" "\<not> bsize (mem s b) \<le> ALIGN a + META_BLOCK_SIZE + 1"
  shows "bnext (mem (split_block_attempt b a s) q)
           = (if q = b then new else if q = new then hd (post @ [HEAD]) else bnext (mem s q))"
    and "prev (mem (split_block_attempt b a s) q)
           = (if q = new then b else if q = hd (post @ [HEAD]) then new else prev (mem s q))"
    and "bsize (mem (split_block_attempt b a s) q)
           = (if q = b then ALIGN a
              else if q = new then bsize (mem s b) - ALIGN a - META_BLOCK_SIZE
              else bsize (mem s q))"
    and "status (mem (split_block_attempt b a s) q)
           = (if q = new then STATUS_FREE else status (mem s q))"
    and "(split_block_attempt b a s)\<lparr>mem := mem s\<rparr> = s"
proof -
  note f = dlist_split [OF assms(1)]
  have nb: "new \<noteq> b" using assms(3) by auto
  have nn: "new \<noteq> hd (post @ [HEAD])"
    using assms(2,3) f(3,4) by (cases b; cases post) auto
  show "bnext (mem (split_block_attempt b a s) q)
           = (if q = b then new else if q = new then hd (post @ [HEAD]) else bnext (mem s q))"
    using assms(2,4,5) f nb nn
    by (auto simp add: split_block_attempt_def Let_def set_size_def set_status_def set_next_def set_prev_def)
  show "prev (mem (split_block_attempt b a s) q)
           = (if q = new then b else if q = hd (post @ [HEAD]) then new else prev (mem s q))"
    using assms(2,4,5) f nb nn
    by (auto simp add: split_block_attempt_def Let_def set_size_def set_status_def set_next_def set_prev_def)
  show "bsize (mem (split_block_attempt b a s) q)
           = (if q = b then ALIGN a
              else if q = new then bsize (mem s b) - ALIGN a - META_BLOCK_SIZE
              else bsize (mem s q))"
    using assms(2,4,5) f nb nn
    by (auto simp add: split_block_attempt_def Let_def set_size_def set_status_def set_next_def set_prev_def)
  show "status (mem (split_block_attempt b a s) q)
           = (if q = new then STATUS_FREE else status (mem s q))"
    using assms(2,4,5) f nb nn
    by (auto simp add: split_block_attempt_def Let_def set_size_def set_status_def set_next_def set_prev_def)
  show "(split_block_attempt b a s)\<lparr>mem := mem s\<rparr> = s"
    by (simp add: split_block_attempt_def Let_def set_size_def set_status_def set_next_def set_prev_def)
qed

lemma split_happens_dlist:
  assumes "dlist s (pre @ b # post)"
    and "new = ptr_add b (META_BLOCK_SIZE + ALIGN a)"
    and "new \<notin> set (pre @ b # post)"
    and "bsize (mem s b) \<noteq> ALIGN a" "\<not> bsize (mem s b) \<le> ALIGN a + META_BLOCK_SIZE + 1"
  shows "dlist (split_block_attempt b a s) (pre @ b # new # post)"
proof -
  note f = dlist_split [OF assms(1)]
  from assms(1) have c: "chain (mem s) HEAD (pre @ b # post)" and d: "distinct (pre @ b # post)"
    by (simp_all add: dlist_def)
  have h: "HEAD \<notin> set (pre @ b # post)" using chain_not_HEAD [OF c] by simp
  have n: "new \<noteq> HEAD" "new \<noteq> NULL" using assms(2) f(3,4) by (cases b; simp)+
  have "chain (mem (split_block_attempt b a s)) HEAD (pre @ b # new # post)"
    by (rule chain_insert [OF c d h assms(3) n(1) n(1) n(2)])
       (simp_all add: split_happens_fields [OF assms])
  with d assms(3) show ?thesis by (auto simp add: dlist_def)
qed

lemma split_not_happens:
  "bsize (mem s b) = ALIGN a \<or> bsize (mem s b) \<le> ALIGN a + META_BLOCK_SIZE + 1 \<Longrightarrow>
   split_block_attempt b a s = s"
  by (auto simp add: split_block_attempt_def Let_def)

lemma set_size_dlist: "dlist (set_size p v s) xs = dlist s xs"
proof -
  have "chain (mem (set_size p v s)) HEAD xs = chain (mem s) HEAD xs"
    by (rule chain_cong) (simp_all add: set_size_def)
  then show ?thesis by (simp add: dlist_def)
qed

lemma set_status_dlist: "dlist (set_status p v s) xs = dlist s xs"
proof -
  have "chain (mem (set_status p v s)) HEAD xs = chain (mem s) HEAD xs"
    by (rule chain_cong) (simp_all add: set_status_def)
  then show ?thesis by (simp add: dlist_def)
qed

lemma coalesce_blocks_dlist:
  "dlist s (pre @ x # post) \<Longrightarrow> dlist (coalesce_blocks c x s) (pre @ post)"
  by (simp add: coalesce_blocks_def list_remove_block_dlist set_size_dlist)

lemma coalesce_blocks_status:
  "status (mem (coalesce_blocks c x s) q) = status (mem s q)"
  by (simp add: coalesce_blocks_def list_remove_block_frame set_size_def)

lemma head_init_dlist: "dlist (head_init s) []"
  by (simp add: dlist_def head_init_def set_next_def set_prev_def set_size_def)

lemma dlist_example: "dlist example_state example_blocks"
  by (simp add: dlist_def example_state_def example_blocks_def)

lemma aligned8_32: "aligned8 32" "aligned8 8" "aligned8 64"
  by (simp_all add: aligned8_def)

section \<open>The traversals on a well-formed list\<close>

lemma search_loop_find:
  "chain (mem s) p xs \<Longrightarrow>
   search_block_in_list_loop s q (bnext (mem s p))
     = Some (case find (\<lambda>x. payload x = q) xs of None \<Rightarrow> NULL | Some x \<Rightarrow> x)"
proof (induction xs arbitrary: p)
  case Nil
  then show ?case by (subst search_block_in_list_loop.simps) simp
next
  case (Cons x xs)
  then show ?case by (subst search_block_in_list_loop.simps) simp
qed

lemma find_best_loop_from:
  "chain (mem s) p xs \<Longrightarrow>
   find_best_block_loop s a (bnext (mem s p)) bf = Some (best_fit_from s (ALIGN a) bf xs)"
proof (induction xs arbitrary: p bf)
  case Nil
  then show ?case by (subst find_best_block_loop.simps) simp
next
  case (Cons x xs)
  then show ?case by (subst find_best_block_loop.simps) auto
qed

lemma best_fit_from_spec:
  "NULL \<notin> set xs \<Longrightarrow>
   (best_fit_from s a bf xs = bf \<and> (\<forall>y\<in>set xs. fits s a y \<longrightarrow> bf \<noteq> NULL \<and> bsize (mem s bf) \<le> bsize (mem s y)))
   \<or> (\<exists>pre post. xs = pre @ best_fit_from s a bf xs # post \<and> fits s a (best_fit_from s a bf xs)
        \<and> (bf \<noteq> NULL \<longrightarrow> bsize (mem s (best_fit_from s a bf xs)) < bsize (mem s bf))
        \<and> (\<forall>y\<in>set pre. fits s a y \<longrightarrow> bsize (mem s (best_fit_from s a bf xs)) < bsize (mem s y))
        \<and> (\<forall>y\<in>set post. fits s a y \<longrightarrow> bsize (mem s (best_fit_from s a bf xs)) \<le> bsize (mem s y)))"
proof (induction xs arbitrary: bf)
  case Nil
  then show ?case by simp
next
  case (Cons x xs)
  let ?bf' = "if status (mem s x) = STATUS_FREE \<and> a \<le> bsize (mem s x)
           \<and> (bf = NULL \<or> bsize (mem s x) < bsize (mem s bf)) then x else bf"
  let ?r = "best_fit_from s a ?bf' xs"
  have r: "best_fit_from s a bf (x # xs) = ?r" by simp
  from Cons.prems have nn: "NULL \<notin> set xs" and xn: "x \<noteq> NULL" by auto
  from Cons.IH [OF nn, of ?bf']
  consider
    (keep) "?r = ?bf'" "\<forall>y\<in>set xs. fits s a y \<longrightarrow> ?bf' \<noteq> NULL \<and> bsize (mem s ?bf') \<le> bsize (mem s y)"
  | (later) pre post where "xs = pre @ ?r # post" "fits s a ?r"
      "?bf' \<noteq> NULL \<longrightarrow> bsize (mem s ?r) < bsize (mem s ?bf')"
      "\<forall>y\<in>set pre. fits s a y \<longrightarrow> bsize (mem s ?r) < bsize (mem s y)"
      "\<forall>y\<in>set post. fits s a y \<longrightarrow> bsize (mem s ?r) \<le> bsize (mem s y)"
    by blast
  then show ?case
  proof cases
    case keep
    show ?thesis
    proof (cases "status (mem s x) = STATUS_FREE \<and> a \<le> bsize (mem s x)
           \<and> (bf = NULL \<or> bsize (mem s x) < bsize (mem s bf))")
      case True
      then have "x # xs = [] @ ?r # xs" using keep by simp
      moreover have "fits s a ?r" using True keep xn by (auto simp: fits_def split: if_splits)
      moreover have "bf \<noteq> NULL \<longrightarrow> bsize (mem s ?r) < bsize (mem s bf)"
        using True keep xn by (auto simp: fits_def split: if_splits)
      moreover have "\<forall>y\<in>set xs. fits s a y \<longrightarrow> bsize (mem s ?r) \<le> bsize (mem s y)"
        using True keep by auto
      ultimately show ?thesis unfolding r by (intro disjI2 exI[of _ "[]"] exI[of _ xs]) simp
    next
      case False
      then have bf: "?bf' = bf" by (auto split: if_splits)
      have "fits s a x \<longrightarrow> bf \<noteq> NULL \<and> bsize (mem s bf) \<le> bsize (mem s x)"
        using False by (auto simp: fits_def split: if_splits)
      then show ?thesis unfolding r using keep bf by auto
    qed
  next
    case later
    have x: "fits s a x \<longrightarrow> bsize (mem s ?r) < bsize (mem s x)"
      using later(3) xn by (auto simp: fits_def split: if_splits)
    have b: "bf \<noteq> NULL \<longrightarrow> bsize (mem s ?r) < bsize (mem s bf)"
      using later(3) xn by (auto simp: fits_def split: if_splits)
    have "x # xs = (x # pre) @ ?r # post" using later(1) by simp
    moreover have "\<forall>y\<in>set (x # pre). fits s a y \<longrightarrow> bsize (mem s ?r) < bsize (mem s y)"
      using x later(4) by simp
    ultimately show ?thesis unfolding r using later(2,5) b
      by (intro disjI2 exI[of _ "x # pre"] exI[of _ post]) simp
  qed
qed

lemma find_best_block_from:
  "dlist s xs \<Longrightarrow> find_best_block a s = Some (best_fit_from s (ALIGN a) NULL xs)"
  by (simp add: find_best_block_def dlist_def find_best_loop_from)

lemma best_fit_from_exact:
  "bsize (mem s bf) = a \<Longrightarrow> bf \<noteq> NULL \<Longrightarrow> best_fit_from s a bf xs = bf"
  by (induction xs) auto

lemma draft_loop_from:
  "chain (mem s) p xs \<Longrightarrow> bf = NULL \<or> a < bsize (mem s bf) \<Longrightarrow>
   find_best_block_draft_loop s a (bnext (mem s p)) bf = Some (best_fit_from s a bf xs)"
proof (induction xs arbitrary: p bf)
  case Nil
  then show ?case by (subst find_best_block_draft_loop.simps) simp
next
  case (Cons x xs)
  from Cons.prems have x: "bnext (mem s p) = x" "x \<noteq> HEAD" "x \<noteq> NULL" "chain (mem s) x xs"
    by auto
  show ?case
  proof (cases "status (mem s x) = STATUS_FREE \<and> a \<le> bsize (mem s x) \<and> bsize (mem s x) = a")
    case True
    then have "best_fit_from s a bf (x # xs) = best_fit_from s a x xs"
      using Cons.prems(2) by auto
    also have "\<dots> = x" using True x by (simp add: best_fit_from_exact)
    finally show ?thesis
      using True x by (subst find_best_block_draft_loop.simps) simp
  next
    case False
    let ?bf' = "if status (mem s x) = STATUS_FREE \<and> a \<le> bsize (mem s x)
                  \<and> (bf = NULL \<or> bsize (mem s x) < bsize (mem s bf)) then x else bf"
    have inv: "?bf' = NULL \<or> a < bsize (mem s ?bf')"
      using False Cons.prems(2) by auto
    have "find_best_block_draft_loop s a (bnext (mem s x)) ?bf' = Some (best_fit_from s a ?bf' xs)"
      by (rule Cons.IH [OF x(4) inv])
    then show ?thesis
      using False x by (subst find_best_block_draft_loop.simps) auto
  qed
qed

lemma naf_snoc:
  "no_adjacent_free (hs @ [st]) =
     (no_adjacent_free hs \<and> (st = STATUS_FREE \<longrightarrow> hs = [] \<or> last hs \<noteq> STATUS_FREE))"
  by (induction hs rule: no_adjacent_free.induct) auto

lemma heap_statuses_snoc:
  "heap_statuses s (xs @ [x]) =
     (if status (mem s x) = STATUS_MAPPED then heap_statuses s xs
      else heap_statuses s xs @ [status (mem s x)])"
  by (simp add: heap_statuses_def)

lemma heap_statuses_cong:
  "\<forall>q. status (mem s' q) = status (mem s q) \<Longrightarrow> heap_statuses s' xs = heap_statuses s xs"
  by (simp add: heap_statuses_def)

section \<open>Best-fit search\<close>

text \<open>
  Claim C2. On every well-formed list and for every aligned request size \<open>a\<close>,
  \<^verbatim>\<open>find_best_block\<close> returns; among the free blocks of size at least \<open>a\<close> it returns
  one of the smallest size, and of several smallest ones the first in list order (every
  fitting block before it is strictly larger, every fitting block after it is at least as
  large); it returns null when no free block is large enough.
\<close>

theorem find_best_block_best_fit:
  assumes "dlist s xs" and "aligned8 a"
  shows "\<exists>r. find_best_block a s = Some r \<and>
     (if \<forall>x\<in>set xs. \<not> fits s a x then r = NULL
      else \<exists>pre post. xs = pre @ r # post \<and> fits s a r
            \<and> (\<forall>y\<in>set pre. fits s a y \<longrightarrow> bsize (mem s r) < bsize (mem s y))
            \<and> (\<forall>y\<in>set post. fits s a y \<longrightarrow> bsize (mem s r) \<le> bsize (mem s y)))"
proof -
  let ?r = "best_fit_from s a NULL xs"
  have r: "find_best_block a s = Some ?r"
    using assms by (simp add: find_best_block_from ALIGN_aligned8)
  have n: "NULL \<notin> set xs"
    using assms(1) chain_not_HEAD by (auto simp add: dlist_def)
  from best_fit_from_spec [OF n, of s a NULL]
  consider (none) "?r = NULL" "\<forall>y\<in>set xs. \<not> fits s a y"
    | (some) pre post where "xs = pre @ ?r # post" "fits s a ?r"
        "\<forall>y\<in>set pre. fits s a y \<longrightarrow> bsize (mem s ?r) < bsize (mem s y)"
        "\<forall>y\<in>set post. fits s a y \<longrightarrow> bsize (mem s ?r) \<le> bsize (mem s y)"
    by auto
  then show ?thesis
  proof cases
    case none
    then show ?thesis using r by simp
  next
    case some
    have "best_fit_from s a NULL xs \<in> set xs"
      by (subst some(1)) simp
    with some(2) have "\<not> (\<forall>x\<in>set xs. \<not> fits s a x)" by blast
    then show ?thesis using r some by auto
  qed
qed

theorem find_best_block_best_fit_witness:
  "dlist example_state example_blocks \<and> aligned8 32 \<and>
   (\<exists>r. find_best_block 32 example_state = Some r \<and>
     (if \<forall>x\<in>set example_blocks. \<not> fits example_state 32 x then r = NULL
      else \<exists>pre post. example_blocks = pre @ r # post \<and> fits example_state 32 r
            \<and> (\<forall>y\<in>set pre. fits example_state 32 y
                   \<longrightarrow> bsize (mem example_state r) < bsize (mem example_state y))
            \<and> (\<forall>y\<in>set post. fits example_state 32 y
                   \<longrightarrow> bsize (mem example_state r) \<le> bsize (mem example_state y))))"
  using find_best_block_best_fit [OF dlist_example aligned8_32(1)] dlist_example aligned8_32(1)
  by blast

text \<open>
  Claim C9. On every well-formed list and for every request size that is a multiple of 8,
  the draft search of \<^verbatim>\<open>src/src/osmem.c\<close>, which returns early on an exact match, and
  the final search, which scans the whole list, return the same block or both return
  null; and they do return.
\<close>

theorem find_best_block_draft_agrees:
  assumes "dlist s xs" and "aligned8 a"
  shows "find_best_block_draft a s = find_best_block a s \<and> find_best_block a s \<noteq> None"
proof -
  have "find_best_block_draft a s = Some (best_fit_from s a NULL xs)"
    using assms(1) by (simp add: find_best_block_draft_def dlist_def draft_loop_from)
  moreover have "find_best_block a s = Some (best_fit_from s a NULL xs)"
    using assms by (simp add: find_best_block_from ALIGN_aligned8)
  ultimately show ?thesis by simp
qed

theorem find_best_block_draft_agrees_witness:
  "dlist example_state example_blocks \<and> aligned8 32 \<and>
   find_best_block_draft 32 example_state = find_best_block 32 example_state \<and>
   find_best_block 32 example_state \<noteq> None"
  using find_best_block_draft_agrees [OF dlist_example aligned8_32(1)] dlist_example aligned8_32(1)
  by blast

section \<open>Splitting and coalescing\<close>

text \<open>
  Claim C3. Let \<open>block\<close> be a block of a well-formed list whose size is aligned, \<open>a\<close> an
  aligned size for which \<open>a + META + 8\<close> does not overflow, and let the address
  \<open>block + META + a\<close> of the trailing descriptor not be a block of the list already.
  \<^verbatim>\<open>split_block_attempt\<close> splits exactly when \<open>block.size \<ge> a + META + 8\<close>. Then the
  trailing block is in the list right after \<open>block\<close>, it is free and of size
  \<open>original - a - META\<close>, the size of \<open>block\<close> is exactly \<open>a\<close>, and no other block changes
  its size or status. Otherwise the state is unchanged.
\<close>

theorem split_block_attempt_spec:
  assumes "dlist s (pre @ block # post)"
    and "new_block = ptr_add block (META_BLOCK_SIZE + a)"
    and "new_block \<notin> set (pre @ block # post)"
    and "aligned8 a" and "aligned8 (bsize (mem s block))"
    and "unat a + unat META_BLOCK_SIZE + 8 < 2 ^ 64"
  shows "if unat a + unat META_BLOCK_SIZE + 8 \<le> unat (bsize (mem s block))
         then dlist (split_block_attempt block a s) (pre @ block # new_block # post)
            \<and> bsize (mem (split_block_attempt block a s) new_block)
                = bsize (mem s block) - a - META_BLOCK_SIZE
            \<and> status (mem (split_block_attempt block a s) new_block) = STATUS_FREE
            \<and> bsize (mem (split_block_attempt block a s) block) = a
            \<and> status (mem (split_block_attempt block a s) block) = status (mem s block)
            \<and> (\<forall>q\<in>set (pre @ post).
                  bsize (mem (split_block_attempt block a s) q) = bsize (mem s q)
                  \<and> status (mem (split_block_attempt block a s) q) = status (mem s q))
         else split_block_attempt block a s = s"
proof (cases "unat a + unat META_BLOCK_SIZE + 8 \<le> unat (bsize (mem s block))")
  case True
  have al: "ALIGN a = a" using assms(4) by (rule ALIGN_aligned8)
  from True have c: "bsize (mem s block) \<noteq> ALIGN a"
    "\<not> bsize (mem s block) \<le> ALIGN a + META_BLOCK_SIZE + 1"
    using split_condition [OF assms(4,5,6)] by simp_all
  have n: "new_block = ptr_add block (META_BLOCK_SIZE + ALIGN a)"
    using assms(2) al by simp
  note fl = split_happens_fields [OF assms(1) n assms(3) c]
  have nb: "new_block \<noteq> block" using assms(3) by auto
  have "dlist (split_block_attempt block a s) (pre @ block # new_block # post)"
    by (rule split_happens_dlist [OF assms(1) n assms(3) c])
  moreover have "\<forall>q\<in>set (pre @ post).
                  bsize (mem (split_block_attempt block a s) q) = bsize (mem s q)
                  \<and> status (mem (split_block_attempt block a s) q) = status (mem s q)"
  proof
    fix q assume q: "q \<in> set (pre @ post)"
    from assms(1) have "distinct (pre @ block # post)" by (simp add: dlist_def)
    with q have "q \<noteq> block" by auto
    moreover from q assms(3) have "q \<noteq> new_block" by auto
    ultimately show "bsize (mem (split_block_attempt block a s) q) = bsize (mem s q)
                  \<and> status (mem (split_block_attempt block a s) q) = status (mem s q)"
      by (simp add: fl)
  qed
  ultimately show ?thesis using True nb al by (simp add: fl)
next
  case False
  then have "bsize (mem s block) = ALIGN a \<or> bsize (mem s block) \<le> ALIGN a + META_BLOCK_SIZE + 1"
    using split_condition [OF assms(4,5,6)] by blast
  then show ?thesis using False by (simp add: split_not_happens)
qed

theorem split_block_attempt_spec_witness:
  "dlist example_state ([] @ At 0x1000 # [At 0x1060, At 0x10A0, At 0x10E0, At 0x7f0000000000])
   \<and> At 0x1028 \<notin> set ([] @ At 0x1000 # [At 0x1060, At 0x10A0, At 0x10E0, At 0x7f0000000000])
   \<and> aligned8 8 \<and> aligned8 (bsize (mem example_state (At 0x1000)))
   \<and> unat (8 :: size_t) + unat META_BLOCK_SIZE + 8 \<le> unat (bsize (mem example_state (At 0x1000)))
   \<and> dlist (split_block_attempt (At 0x1000) 8 example_state)
        ([] @ At 0x1000 # At 0x1028 # [At 0x1060, At 0x10A0, At 0x10E0, At 0x7f0000000000])
   \<and> bsize (mem (split_block_attempt (At 0x1000) 8 example_state) (At 0x1028)) = 24
   \<and> status (mem (split_block_attempt (At 0x1000) 8 example_state) (At 0x1028)) = STATUS_FREE
   \<and> bsize (mem (split_block_attempt (At 0x1000) 8 example_state) (At 0x1000)) = 8"
proof -
  have d: "dlist example_state ([] @ At 0x1000 # [At 0x1060, At 0x10A0, At 0x10E0, At 0x7f0000000000])"
    using dlist_example by (simp add: example_blocks_def)
  have n: "At 0x1028 = ptr_add (At 0x1000) (META_BLOCK_SIZE + 8)"
    by (simp add: META_BLOCK_SIZE_eq)
  have m: "At 0x1028 \<notin> set ([] @ At 0x1000 # [At 0x1060, At 0x10A0, At 0x10E0, At 0x7f0000000000])"
    by simp
  have sz: "bsize (mem example_state (At 0x1000)) = 64"
    by (simp add: example_state_def)
  have a: "aligned8 (bsize (mem example_state (At 0x1000)))"
    by (simp add: sz aligned8_32)
  have o: "unat (8 :: size_t) + unat META_BLOCK_SIZE + 8 < 2 ^ 64"
    by (simp add: unat_META)
  have t: "unat (8 :: size_t) + unat META_BLOCK_SIZE + 8 \<le> unat (bsize (mem example_state (At 0x1000)))"
    by (simp add: unat_META sz)
  from split_block_attempt_spec [OF d n m aligned8_32(2) a o] t d m a aligned8_32(2)
  show ?thesis by (simp add: sz META_BLOCK_SIZE_eq)
qed

text \<open>
  Claim C10. Let \<open>b\<close> be a block of a well-formed list and \<open>a\<close> an aligned size with
  \<open>b.size > a + META + 1\<close>, so that the split happens. Coalescing \<open>b\<close> with the trailing
  block the split produced gives back the original state: the size of \<open>b\<close>, every link
  and every other descriptor of the list are as before; only the bytes of the trailing
  descriptor, which lie in the payload of \<open>b\<close>, keep what the split wrote there.
\<close>

theorem coalesce_undoes_split:
  assumes "dlist s (pre @ b # post)"
    and "new_block = ptr_add b (META_BLOCK_SIZE + a)"
    and "new_block \<notin> set (pre @ b # post)"
    and "aligned8 a"
    and "unat a + unat META_BLOCK_SIZE + 1 < unat (bsize (mem s b))"
  shows "(coalesce_blocks b new_block (split_block_attempt b a s))
           \<lparr>mem := (mem (coalesce_blocks b new_block (split_block_attempt b a s)))
                      (new_block := mem s new_block)\<rparr> = s
         \<and> bsize (mem (coalesce_blocks b new_block (split_block_attempt b a s)) b) = bsize (mem s b)
         \<and> dlist (coalesce_blocks b new_block (split_block_attempt b a s)) (pre @ b # post)
         \<and> split_block_attempt b a s \<noteq> s"
proof -
  let ?s1 = "split_block_attempt b a s"
  let ?s2 = "coalesce_blocks b new_block ?s1"
  have al: "ALIGN a = a" using assms(4) by (rule ALIGN_aligned8)
  have lt: "unat (a + META_BLOCK_SIZE + 1) = unat a + unat META_BLOCK_SIZE + 1"
  proof -
    have "unat (bsize (mem s b)) < 2 ^ 64"
      using unsigned_less [of "bsize (mem s b)", where ?'a = nat] by simp
    then have "unat a + 33 < 2 ^ 64"
      using assms(5) by (simp add: unat_META)
    then have "unat (a + 33) = unat a + 33"
      by (simp add: unat_word_ariths)
    then show ?thesis by (simp add: META_BLOCK_SIZE_eq add.assoc)
  qed
  have c: "bsize (mem s b) \<noteq> ALIGN a" "\<not> bsize (mem s b) \<le> ALIGN a + META_BLOCK_SIZE + 1"
    using assms(5) lt by (auto simp add: al word_le_nat_alt)
  have n: "new_block = ptr_add b (META_BLOCK_SIZE + ALIGN a)"
    using assms(2) al by simp
  note fl = split_happens_fields [OF assms(1) n assms(3) c]
  note f = dlist_split [OF assms(1)]
  have nb: "new_block \<noteq> b" using assms(3) by auto
  have d1: "dlist ?s1 ((pre @ [b]) @ new_block # post)"
    using split_happens_dlist [OF assms(1) n assms(3) c] by simp
  define s1' where
    "s1' = set_size b (bsize (mem ?s1 b) + (META_BLOCK_SIZE + bsize (mem ?s1 new_block))) ?s1"
  have d1': "dlist s1' ((pre @ [b]) @ new_block # post)"
    using d1 by (simp add: s1'_def set_size_dlist)
  have s2: "?s2 = list_remove_block new_block s1'"
    by (simp add: coalesce_blocks_def s1'_def)
  have d2: "dlist ?s2 (pre @ b # post)"
    using coalesce_blocks_dlist [OF d1, of b] by simp
  have sz1: "bsize (mem s1' q) = (if q = b then bsize (mem s b) else bsize (mem ?s1 q))"
    and lk1: "prev (mem s1' q) = prev (mem ?s1 q)" "bnext (mem s1' q) = bnext (mem ?s1 q)" for q
    using nb by (simp_all add: s1'_def set_size_def fl al)
  have lp: "prev (mem ?s2 q) = (if q = hd (post @ [HEAD]) then b else prev (mem ?s1 q))"
    and ln: "bnext (mem ?s2 q) = (if q = b then hd (post @ [HEAD]) else bnext (mem ?s1 q))" for q
    unfolding s2 using list_remove_block_links [OF d1', of q] by (simp_all add: lk1)
  have m: "mem ?s2 q = mem s q" if "q \<noteq> new_block" for q
  proof (rule block_meta.equality)
    show "bsize (mem ?s2 q) = bsize (mem s q)"
      using that by (simp add: s2 list_remove_block_frame sz1 fl)
    show "status (mem ?s2 q) = status (mem s q)"
      using that by (simp add: coalesce_blocks_status fl)
    show "prev (mem ?s2 q) = prev (mem s q)"
      using that by (simp add: lp fl f(7))
    show "bnext (mem ?s2 q) = bnext (mem s q)"
      using that by (simp add: ln fl f(1))
    show "block_meta.more (mem ?s2 q) = block_meta.more (mem s q)"
      by simp
  qed
  have rest: "?s2\<lparr>mem := mem s\<rparr> = s"
    using fl(5)
    by (simp add: coalesce_blocks_def list_remove_block_def set_next_def set_prev_def set_size_def Let_def)
  have "(mem ?s2)(new_block := mem s new_block) = mem s"
    using m by (auto simp add: fun_eq_iff)
  then have "?s2\<lparr>mem := (mem ?s2)(new_block := mem s new_block)\<rparr> = s"
    using rest by simp
  moreover have "?s1 \<noteq> s"
  proof
    assume "?s1 = s"
    then have "bsize (mem ?s1 b) = bsize (mem s b)" by simp
    then show False using c(1) by (simp add: fl)
  qed
  ultimately show ?thesis using d2 m [OF nb [symmetric]] nb by simp
qed

theorem coalesce_undoes_split_witness:
  "dlist example_state ([] @ At 0x1000 # [At 0x1060, At 0x10A0, At 0x10E0, At 0x7f0000000000])
   \<and> At 0x1028 \<notin> set ([] @ At 0x1000 # [At 0x1060, At 0x10A0, At 0x10E0, At 0x7f0000000000])
   \<and> aligned8 8
   \<and> unat (8 :: size_t) + unat META_BLOCK_SIZE + 1 < unat (bsize (mem example_state (At 0x1000)))
   \<and> (coalesce_blocks (At 0x1000) (At 0x1028) (split_block_attempt (At 0x1000) 8 example_state))
        \<lparr>mem := (mem (coalesce_blocks (At 0x1000) (At 0x1028)
                         (split_block_attempt (At 0x1000) 8 example_state)))
                   (At 0x1028 := mem example_state (At 0x1028))\<rparr> = example_state
   \<and> split_block_attempt (At 0x1000) 8 example_state \<noteq> example_state"
proof -
  have d: "dlist example_state ([] @ At 0x1000 # [At 0x1060, At 0x10A0, At 0x10E0, At 0x7f0000000000])"
    using dlist_example by (simp add: example_blocks_def)
  have n: "At 0x1028 = ptr_add (At 0x1000) (META_BLOCK_SIZE + 8)"
    by (simp add: META_BLOCK_SIZE_eq)
  have m: "At 0x1028 \<notin> set ([] @ At 0x1000 # [At 0x1060, At 0x10A0, At 0x10E0, At 0x7f0000000000])"
    by simp
  have t: "unat (8 :: size_t) + unat META_BLOCK_SIZE + 1 < unat (bsize (mem example_state (At 0x1000)))"
    by (simp add: unat_META example_state_def)
  from coalesce_undoes_split [OF d n m aligned8_32(2) t] d m t aligned8_32(2)
  show ?thesis by blast
qed

section \<open>Zero-allocate: zero operands and overflow\<close>

lemma os_calloc_zero: "nmemb = 0 \<or> sz = 0 \<Longrightarrow> os_calloc nmemb sz s = Some (NULL, s)"
  by (auto simp add: os_calloc_def)

lemma os_calloc_overflow:
  "nmemb \<noteq> 0 \<Longrightarrow> sz \<noteq> 0 \<Longrightarrow> ALIGN (sz * nmemb) < sz \<or> ALIGN (sz * nmemb) < nmemb \<Longrightarrow>
   os_calloc nmemb sz s = Some (NULL, if head_init_done s then s else head_init s)"
  by (auto simp add: os_calloc_def Let_def)

lemma ALIGN_half_max_times_4: "ALIGN (4 * (SIZE_MAX div 2)) = 0"
  by (simp add: ALIGN_def ALIGNMENT_def SIZE_MAX_def)

lemma os_calloc_half_max:
  "os_calloc (SIZE_MAX div 2) 4 s = Some (NULL, if head_init_done s then s else head_init s)"
proof -
  have "ALIGN (4 * (SIZE_MAX div 2)) < 4"
    by (simp add: ALIGN_half_max_times_4)
  moreover have "SIZE_MAX div 2 \<noteq> 0"
    by (simp add: SIZE_MAX_def)
  ultimately show ?thesis
    using os_calloc_overflow [of "SIZE_MAX div 2" 4 s] by simp
qed

text \<open>
  Claim C7, as the code has it. \<^verbatim>\<open>os_calloc\<close> returns null and leaves the state alone
  when an operand is zero. When both are non-zero and the product (modulo \<open>2^64\<close>)
  rounded up to a multiple of 8 is below either operand, it returns null, creates no
  block and requests nothing from the kernel; but the sentinel is initialised before the
  overflow check, so a first call changes the state by exactly \<^verbatim>\<open>head_init\<close>. In a state
  whose sentinel is initialised nothing changes. \<^verbatim>\<open>os_calloc(SIZE_MAX/2, 4)\<close> is such
  a call.
\<close>

theorem os_calloc_zero_or_overflow:
  "(nmemb = 0 \<or> sz = 0 \<longrightarrow> os_calloc nmemb sz s = Some (NULL, s)) \<and>
   (nmemb \<noteq> 0 \<and> sz \<noteq> 0 \<and> (ALIGN (sz * nmemb) < sz \<or> ALIGN (sz * nmemb) < nmemb) \<longrightarrow>
      os_calloc nmemb sz s = Some (NULL, if head_init_done s then s else head_init s)) \<and>
   os_calloc (SIZE_MAX div 2) 4 s = Some (NULL, if head_init_done s then s else head_init s)"
  using os_calloc_zero [of nmemb sz s] os_calloc_overflow [of nmemb sz s] os_calloc_half_max [of s]
  by blast

theorem os_calloc_zero_or_overflow_witness:
  "os_calloc 0 7 (initial_state 4096 1048576 []) = Some (NULL, initial_state 4096 1048576 []) \<and>
   ALIGN (4 * (SIZE_MAX div 2)) < 4 \<and>
   os_calloc (SIZE_MAX div 2) 4 (initial_state 4096 1048576 [])
     = Some (NULL, head_init (initial_state 4096 1048576 []))"
proof -
  have a: "ALIGN (4 * (SIZE_MAX div 2)) < 4"
    by (simp add: ALIGN_half_max_times_4)
  have b: "SIZE_MAX div 2 \<noteq> 0"
    by (simp add: SIZE_MAX_def)
  show ?thesis
    using a b os_calloc_zero_or_overflow [of 0 7 "initial_state 4096 1048576 []"]
      os_calloc_zero_or_overflow [of "SIZE_MAX div 2" 4 "initial_state 4096 1048576 []"]
    by (simp add: initial_state_def)
qed

text \<open>The claim as stated fails on the first call of a process: the overflowing
  \<^verbatim>\<open>os_calloc(SIZE_MAX/2, 4)\<close> returns null, but the state is no longer the initial one.\<close>

theorem os_calloc_overflow_counterexample:
  "os_calloc (SIZE_MAX div 2) 4 (initial_state 4096 1048576 [])
     \<noteq> Some (NULL, initial_state 4096 1048576 [])"
proof
  assume a: "os_calloc (SIZE_MAX div 2) 4 (initial_state 4096 1048576 [])
     = Some (NULL, initial_state 4096 1048576 [])"
  have "os_calloc (SIZE_MAX div 2) 4 (initial_state 4096 1048576 [])
     = Some (NULL, head_init (initial_state 4096 1048576 []))"
    using os_calloc_half_max [of "initial_state 4096 1048576 []"]
    by (simp add: initial_state_def)
  with a have "head_init (initial_state 4096 1048576 []) = initial_state 4096 1048576 []"
    by simp
  then have "head_init_done (head_init (initial_state 4096 1048576 []))
     = head_init_done (initial_state 4096 1048576 [])"
    by simp
  then show False
    by (simp add: head_init_def initial_state_def)
qed

section \<open>Free\<close>

lemma payload_inj:
  "x \<noteq> HEAD \<Longrightarrow> x \<noteq> NULL \<Longrightarrow> y \<noteq> HEAD \<Longrightarrow> y \<noteq> NULL \<Longrightarrow> payload x = payload y \<Longrightarrow> x = y"
  by (cases x; cases y) (simp_all add: payload_def)

lemma payload_not_NULL: "x \<noteq> HEAD \<Longrightarrow> x \<noteq> NULL \<Longrightarrow> payload x \<noteq> NULL"
  by (cases x) (simp_all add: payload_def)

lemma find_payload:
  "HEAD \<notin> set xs \<Longrightarrow> NULL \<notin> set xs \<Longrightarrow> x \<in> set xs \<Longrightarrow>
   find (\<lambda>y. payload y = payload x) xs = Some x"
proof (induction xs)
  case Nil
  then show ?case by simp
next
  case (Cons y ys)
  show ?case
  proof (cases "payload y = payload x")
    case True
    have "x \<noteq> HEAD" "x \<noteq> NULL" using Cons.prems by auto
    with True Cons.prems have "y = x" by (auto intro: payload_inj)
    then show ?thesis by simp
  next
    case False
    then have "x \<noteq> y" by auto
    with Cons False show ?thesis by simp
  qed
qed

lemma search_block_in_list_found:
  assumes "dlist s xs" "x \<in> set xs"
  shows "search_block_in_list (payload x) s = Some x"
proof -
  from assms(1) have c: "chain (mem s) HEAD xs" by (simp add: dlist_def)
  from chain_not_HEAD [OF c] assms(2)
  have "find (\<lambda>y. payload y = payload x) xs = Some x"
    by (simp add: find_payload)
  then show ?thesis
    by (simp add: search_block_in_list_def search_loop_find [OF c])
qed

lemma search_block_in_list_not_found:
  assumes "dlist s xs" "\<forall>x\<in>set xs. payload x \<noteq> p"
  shows "search_block_in_list p s = Some NULL"
proof -
  from assms(1) have c: "chain (mem s) HEAD xs" by (simp add: dlist_def)
  have "find (\<lambda>y. payload y = p) xs = None"
    using assms(2) by (simp add: find_None_iff)
  then show ?thesis
    by (simp add: search_block_in_list_def search_loop_find [OF c])
qed

lemma dlist_block: "dlist s xs \<Longrightarrow> x \<in> set xs \<Longrightarrow> x \<noteq> HEAD \<and> x \<noteq> NULL"
  using chain_not_HEAD by (auto simp add: dlist_def)

lemma os_free_null: "os_free NULL s = Some s"
  by (simp add: os_free_def)

lemma os_free_not_found:
  "dlist s xs \<Longrightarrow> \<forall>x\<in>set xs. payload x \<noteq> p \<Longrightarrow> os_free p s = Some s"
  by (simp add: os_free_def search_block_in_list_not_found)

lemma os_free_free:
  assumes "dlist s xs" "x \<in> set xs" "status (mem s x) = STATUS_FREE"
  shows "os_free (payload x) s = Some s"
  using assms dlist_block [OF assms(1,2)]
  by (simp add: os_free_def search_block_in_list_found payload_not_NULL)

lemma os_free_alloc:
  assumes "dlist s xs" "x \<in> set xs" "status (mem s x) = STATUS_ALLOC"
  shows "os_free (payload x) s = Some (s\<lparr>mem := (mem s)(x := (mem s x)\<lparr>status := STATUS_FREE\<rparr>)\<rparr>)"
  using assms dlist_block [OF assms(1,2)]
  by (simp add: os_free_def search_block_in_list_found payload_not_NULL set_status_def)

lemma os_free_mapped:
  assumes "dlist s (pre @ x # post)" "status (mem s x) = STATUS_MAPPED"
    "bsize (mem s x) + META_BLOCK_SIZE \<noteq> 0"
  shows "os_free (payload x) s
           = Some ((list_remove_block x s)
                     \<lparr>mappings := removeAll (addr_of x, bsize (mem s x) + META_BLOCK_SIZE) (mappings s)\<rparr>)"
proof -
  have x: "x \<in> set (pre @ x # post)" by simp
  from dlist_block [OF assms(1) x] assms(2,3) show ?thesis
    by (simp add: os_free_def search_block_in_list_found [OF assms(1) x] payload_not_NULL
          delete_mapped_block_def munmap_def list_remove_block_frame Let_def)
qed

lemma dlist_mappings_update: "dlist (s\<lparr>mappings := v\<rparr>) xs = dlist s xs"
  by (simp add: dlist_def)

lemma os_free_twice:
  assumes "dlist s xs" "os_free p s = Some s1"
  shows "os_free p s1 = Some s1"
proof (cases "\<exists>x\<in>set xs. payload x = p")
  case False
  with assms show ?thesis by (auto simp add: os_free_not_found)
next
  case True
  then obtain x where x: "x \<in> set xs" "payload x = p" by blast
  then obtain pre post where xs: "xs = pre @ x # post"
    by (auto simp add: in_set_conv_decomp)
  note b = dlist_block [OF assms(1) x(1)]
  have srch: "search_block_in_list p s = Some x"
    using search_block_in_list_found [OF assms(1) x(1)] x(2) by simp
  have pn: "p \<noteq> NULL" using payload_not_NULL b x(2) by auto
  consider (free) "status (mem s x) = STATUS_FREE" | (alloc) "status (mem s x) = STATUS_ALLOC"
    | (mapped) "status (mem s x) = STATUS_MAPPED"
    by (cases "status (mem s x)") auto
  then show ?thesis
  proof cases
    case free
    then have "s1 = s" using assms(2) srch pn b by (simp add: os_free_def)
    then show ?thesis using assms(2) by simp
  next
    case alloc
    then have s1: "s1 = set_status x STATUS_FREE s"
      using assms(2) srch pn b by (simp add: os_free_def)
    have "dlist s1 xs" using assms(1) by (simp add: s1 set_status_dlist)
    then have "os_free (payload x) s1 = Some s1"
      using x(1) by (rule os_free_free) (simp add: s1 set_status_def)
    then show ?thesis using x(2) by simp
  next
    case mapped
    from assms(2) srch pn b mapped obtain s2 where
      s1: "s1 = s2\<lparr>mappings := mappings s1\<rparr>" "s2 = list_remove_block x s"
      by (auto simp add: os_free_def delete_mapped_block_def munmap_def Let_def
            split: if_splits)
    have "dlist s2 (pre @ post)"
      using assms(1) unfolding xs s1(2) by (rule list_remove_block_dlist)
    then have d1: "dlist s1 (pre @ post)"
      by (subst s1(1)) (simp add: dlist_mappings_update)
    have dn: "distinct xs" "HEAD \<notin> set xs" "NULL \<notin> set xs"
      using assms(1) chain_not_HEAD by (auto simp add: dlist_def)
    have "\<forall>y\<in>set (pre @ post). payload y \<noteq> p"
    proof
      fix y assume y: "y \<in> set (pre @ post)"
      with dn have "y \<noteq> x" "y \<noteq> HEAD" "y \<noteq> NULL" unfolding xs by auto
      with b show "payload y \<noteq> p" unfolding x(2) [symmetric] by (metis payload_inj)
    qed
    with d1 show ?thesis by (rule os_free_not_found)
  qed
qed

lemma os_free_returns:
  assumes "dlist s xs"
    and "\<forall>x\<in>set xs. status (mem s x) = STATUS_MAPPED \<longrightarrow> bsize (mem s x) + META_BLOCK_SIZE \<noteq> 0"
  shows "\<exists>s1. os_free p s = Some s1"
proof (cases "\<exists>x\<in>set xs. payload x = p")
  case False
  with assms(1) show ?thesis by (auto simp add: os_free_not_found)
next
  case True
  then obtain x where x: "x \<in> set xs" "payload x = p" by blast
  then obtain pre post where xs: "xs = pre @ x # post"
    by (auto simp add: in_set_conv_decomp)
  consider (free) "status (mem s x) = STATUS_FREE" | (alloc) "status (mem s x) = STATUS_ALLOC"
    | (mapped) "status (mem s x) = STATUS_MAPPED"
    by (cases "status (mem s x)") auto
  then show ?thesis
  proof cases
    case free
    with assms(1) x show ?thesis using os_free_free by blast
  next
    case alloc
    with assms(1) x show ?thesis using os_free_alloc by blast
  next
    case mapped
    with assms(2) x have "bsize (mem s x) + META_BLOCK_SIZE \<noteq> 0" by blast
    with assms(1) mapped x(2) show ?thesis
      unfolding xs using os_free_mapped by blast
  qed
qed

lemma os_free_cases:
  assumes "dlist s xs"
  shows "os_free NULL s = Some s
    \<and> (\<forall>x\<in>set xs. status (mem s x) = STATUS_FREE \<longrightarrow> os_free (payload x) s = Some s)
    \<and> (\<forall>pre x post. xs = pre @ x # post \<and> status (mem s x) = STATUS_MAPPED
          \<and> bsize (mem s x) + META_BLOCK_SIZE \<noteq> 0 \<longrightarrow>
          (\<exists>s'. os_free (payload x) s = Some s' \<and> dlist s' (pre @ post)
             \<and> mappings s'
                 = removeAll (addr_of x, bsize (mem s x) + META_BLOCK_SIZE) (mappings s)
             \<and> (\<forall>q. bsize (mem s' q) = bsize (mem s q) \<and> status (mem s' q) = status (mem s q))))
    \<and> (\<forall>x\<in>set xs. status (mem s x) = STATUS_ALLOC \<longrightarrow>
          os_free (payload x) s
            = Some (s\<lparr>mem := (mem s)(x := (mem s x)\<lparr>status := STATUS_FREE\<rparr>)\<rparr>))
    \<and> (\<forall>p s1. os_free p s = Some s1 \<longrightarrow> os_free p s1 = Some s1)"
proof (intro conjI ballI allI impI)
  show "os_free NULL s = Some s" by (rule os_free_null)
next
  fix x assume "x \<in> set xs" "status (mem s x) = STATUS_FREE"
  with assms show "os_free (payload x) s = Some s" by (rule os_free_free)
next
  fix pre x post
  assume a: "xs = pre @ x # post \<and> status (mem s x) = STATUS_MAPPED
          \<and> bsize (mem s x) + META_BLOCK_SIZE \<noteq> 0"
  then have d: "dlist s (pre @ x # post)" using assms by simp
  let ?s' = "(list_remove_block x s)
               \<lparr>mappings := removeAll (addr_of x, bsize (mem s x) + META_BLOCK_SIZE) (mappings s)\<rparr>"
  have "os_free (payload x) s = Some ?s'"
    using a by (intro os_free_mapped [OF d]) simp_all
  moreover have "dlist ?s' (pre @ post)"
    using list_remove_block_dlist [OF d] by (simp add: dlist_mappings_update)
  ultimately show "\<exists>s'. os_free (payload x) s = Some s' \<and> dlist s' (pre @ post)
             \<and> mappings s'
                 = removeAll (addr_of x, bsize (mem s x) + META_BLOCK_SIZE) (mappings s)
             \<and> (\<forall>q. bsize (mem s' q) = bsize (mem s q) \<and> status (mem s' q) = status (mem s q))"
    by (intro exI [of _ ?s']) (simp add: list_remove_block_frame)
next
  fix x assume "x \<in> set xs" "status (mem s x) = STATUS_ALLOC"
  with assms show "os_free (payload x) s
            = Some (s\<lparr>mem := (mem s)(x := (mem s x)\<lparr>status := STATUS_FREE\<rparr>)\<rparr>)"
    by (rule os_free_alloc)
next
  fix p s1 assume "os_free p s = Some s1"
  with assms show "os_free p s1 = Some s1" by (rule os_free_twice)
qed

text \<open>
  Claim C5. On a well-formed list, \<^verbatim>\<open>os_free\<close> of the null pointer changes nothing; of
  the payload pointer of a free block changes nothing; of the payload pointer of a mapped
  block (whose region of \<open>META + size\<close> bytes is not empty) unlinks the block and unmaps
  exactly the region of \<open>META + size\<close> bytes at the block's address, leaving every size and
  status alone; of the payload pointer of an allocated block sets the status of that
  block to free and changes nothing else, so no block is coalesced. Whenever a call
  \<^verbatim>\<open>os_free(p)\<close> returns, a second call with the same pointer returns and changes
  nothing.
\<close>

theorem os_free_spec:
  "os_free NULL s = Some s
    \<and> (dlist s xs \<longrightarrow>
        (\<forall>x\<in>set xs. status (mem s x) = STATUS_FREE \<longrightarrow> os_free (payload x) s = Some s)
      \<and> (\<forall>pre x post. xs = pre @ x # post \<and> status (mem s x) = STATUS_MAPPED
            \<and> bsize (mem s x) + META_BLOCK_SIZE \<noteq> 0 \<longrightarrow>
            (\<exists>s'. os_free (payload x) s = Some s' \<and> dlist s' (pre @ post)
               \<and> mappings s'
                   = removeAll (addr_of x, bsize (mem s x) + META_BLOCK_SIZE) (mappings s)
               \<and> (\<forall>q. bsize (mem s' q) = bsize (mem s q)
                       \<and> status (mem s' q) = status (mem s q))))
      \<and> (\<forall>x\<in>set xs. status (mem s x) = STATUS_ALLOC \<longrightarrow>
            os_free (payload x) s
              = Some (s\<lparr>mem := (mem s)(x := (mem s x)\<lparr>status := STATUS_FREE\<rparr>)\<rparr>))
      \<and> (\<forall>p s1. os_free p s = Some s1 \<longrightarrow> os_free p s1 = Some s1))"
proof (intro conjI impI)
  show "os_free NULL s = Some s" by (rule os_free_null)
qed (use os_free_cases [of s xs] in blast)+

lemma example_blocks_mapped:
  "example_blocks = [At 0x1000, At 0x1060, At 0x10A0, At 0x10E0] @ At 0x7f0000000000 # []"
  by (simp add: example_blocks_def)

theorem os_free_spec_witness:
  "dlist example_state example_blocks
    \<and> At 0x1000 \<in> set example_blocks \<and> status (mem example_state (At 0x1000)) = STATUS_FREE
    \<and> os_free (payload (At 0x1000)) example_state = Some example_state
    \<and> example_blocks = [At 0x1000, At 0x1060, At 0x10A0, At 0x10E0] @ At 0x7f0000000000 # []
    \<and> status (mem example_state (At 0x7f0000000000)) = STATUS_MAPPED
    \<and> bsize (mem example_state (At 0x7f0000000000)) + META_BLOCK_SIZE \<noteq> 0
    \<and> (\<exists>s'. os_free (payload (At 0x7f0000000000)) example_state = Some s'
          \<and> dlist s' ([At 0x1000, At 0x1060, At 0x10A0, At 0x10E0] @ [])
          \<and> mappings s' = [])
    \<and> At 0x1060 \<in> set example_blocks \<and> status (mem example_state (At 0x1060)) = STATUS_ALLOC
    \<and> os_free (payload (At 0x1060)) example_state
         = Some (example_state\<lparr>mem := (mem example_state)
                   (At 0x1060 := (mem example_state (At 0x1060))\<lparr>status := STATUS_FREE\<rparr>)\<rparr>)
    \<and> os_free (payload (At 0x1060))
         (example_state\<lparr>mem := (mem example_state)
                   (At 0x1060 := (mem example_state (At 0x1060))\<lparr>status := STATUS_FREE\<rparr>)\<rparr>)
         = Some (example_state\<lparr>mem := (mem example_state)
                   (At 0x1060 := (mem example_state (At 0x1060))\<lparr>status := STATUS_FREE\<rparr>)\<rparr>)"
proof -
  note t = os_free_spec [of example_state example_blocks, THEN conjunct2, rule_format,
      OF dlist_example]
  have f: "At 0x1000 \<in> set example_blocks" "status (mem example_state (At 0x1000)) = STATUS_FREE"
    and a: "At 0x1060 \<in> set example_blocks" "status (mem example_state (At 0x1060)) = STATUS_ALLOC"
    and m: "status (mem example_state (At 0x7f0000000000)) = STATUS_MAPPED"
      "bsize (mem example_state (At 0x7f0000000000)) + META_BLOCK_SIZE \<noteq> 0"
    by (simp_all add: example_blocks_def example_state_def META_BLOCK_SIZE_eq)
  have mp: "removeAll (addr_of (At 0x7f0000000000),
              bsize (mem example_state (At 0x7f0000000000)) + META_BLOCK_SIZE)
              (mappings example_state) = []"
    by (simp add: example_state_def META_BLOCK_SIZE_eq)
  from t f have 1: "os_free (payload (At 0x1000)) example_state = Some example_state"
    by blast
  from t example_blocks_mapped m
  have "\<exists>s'. os_free (payload (At 0x7f0000000000)) example_state = Some s'
          \<and> dlist s' ([At 0x1000, At 0x1060, At 0x10A0, At 0x10E0] @ [])
          \<and> mappings s' = removeAll (addr_of (At 0x7f0000000000),
              bsize (mem example_state (At 0x7f0000000000)) + META_BLOCK_SIZE)
              (mappings example_state)"
    by blast
  then have 2: "\<exists>s'. os_free (payload (At 0x7f0000000000)) example_state = Some s'
          \<and> dlist s' ([At 0x1000, At 0x1060, At 0x10A0, At 0x10E0] @ [])
          \<and> mappings s' = []"
    by (simp only: mp)
  from t a have 3: "os_free (payload (At 0x1060)) example_state
         = Some (example_state\<lparr>mem := (mem example_state)
                   (At 0x1060 := (mem example_state (At 0x1060))\<lparr>status := STATUS_FREE\<rparr>)\<rparr>)"
    by blast
  with t have 4: "os_free (payload (At 0x1060))
         (example_state\<lparr>mem := (mem example_state)
                   (At 0x1060 := (mem example_state (At 0x1060))\<lparr>status := STATUS_FREE\<rparr>)\<rparr>)
         = Some (example_state\<lparr>mem := (mem example_state)
                   (At 0x1060 := (mem example_state (At 0x1060))\<lparr>status := STATUS_FREE\<rparr>)\<rparr>)"
    by blast
  from dlist_example f a m example_blocks_mapped 1 2 3 4 show ?thesis by blast
qed

section \<open>Reallocate\<close>

text \<open>
  Before the first allocation the links of the sentinel are null. \<^verbatim>\<open>os_free\<close> and
  \<^verbatim>\<open>os_realloc\<close> do not initialise the sentinel, so their list scan starts at a null
  link: it compares \<^verbatim>\<open>(char *)NULL + META_BLOCK_SIZE\<close> with the pointer and then reads
  the \<^verbatim>\<open>next\<close> field of the null block. With any pointer but null and the address
  \<^verbatim>\<open>META_BLOCK_SIZE\<close> the call does not return.
\<close>

lemma search_block_in_list_before_init:
  "search_block_in_list p (initial_state brk0 limit pool)
     = (if p = At META_BLOCK_SIZE then Some NULL else None)"
  by (simp add: search_block_in_list_def initial_state_def zero_meta_def payload_def
        search_block_in_list_loop.simps)

lemma os_free_before_init:
  "p \<noteq> NULL \<Longrightarrow> p \<noteq> At META_BLOCK_SIZE \<Longrightarrow>
   os_free p (initial_state brk0 limit pool) = None"
  by (simp add: os_free_def search_block_in_list_before_init)

lemma os_free_before_init_null_payload:
  "os_free (At META_BLOCK_SIZE) (initial_state brk0 limit pool)
     = Some (initial_state brk0 limit pool)"
  by (simp add: os_free_def search_block_in_list_before_init)

lemma os_realloc_before_init:
  "p \<noteq> NULL \<Longrightarrow> p \<noteq> At META_BLOCK_SIZE \<Longrightarrow> sz \<noteq> 0 \<Longrightarrow>
   os_realloc p sz (initial_state brk0 limit pool) = None"
  by (simp add: os_realloc_def search_block_in_list_before_init)

lemma os_realloc_after_head_init:
  "p \<noteq> NULL \<Longrightarrow> sz \<noteq> 0 \<Longrightarrow>
   os_realloc p sz (head_init s) = Some (NULL, head_init s)"
  by (simp add: os_realloc_def search_block_in_list_def head_init_def set_next_def set_prev_def
        set_size_def search_block_in_list_loop.simps)

lemma os_realloc_cases:
  assumes "dlist s xs"
  shows "os_realloc NULL sz s = os_malloc sz s
    \<and> (p \<noteq> NULL \<longrightarrow> os_realloc p 0 s = map_option (Pair NULL) (os_free p s))
    \<and> (p \<noteq> NULL
         \<and> (\<forall>x\<in>set xs. status (mem s x) = STATUS_MAPPED \<longrightarrow> bsize (mem s x) + META_BLOCK_SIZE \<noteq> 0)
         \<longrightarrow> (\<exists>s1. os_free p s = Some s1 \<and> os_realloc p 0 s = Some (NULL, s1)))
    \<and> (p \<noteq> NULL \<and> sz \<noteq> 0 \<and> (\<forall>x\<in>set xs. payload x \<noteq> p) \<longrightarrow> os_realloc p sz s = Some (NULL, s))
    \<and> (\<forall>x\<in>set xs. sz \<noteq> 0 \<and> payload x = p \<and> status (mem s x) = STATUS_FREE
          \<longrightarrow> os_realloc p sz s = Some (NULL, s))
    \<and> (\<forall>x\<in>set xs. sz \<noteq> 0 \<and> payload x = p \<and> status (mem s x) \<noteq> STATUS_FREE
            \<and> ALIGN sz = bsize (mem s x)
          \<longrightarrow> os_realloc p sz s = Some (p, s))"
proof (intro conjI ballI impI)
  show "os_realloc NULL sz s = os_malloc sz s"
    by (simp add: os_realloc_def)
next
  assume "p \<noteq> NULL"
  then show "os_realloc p 0 s = map_option (Pair NULL) (os_free p s)"
    by (cases "os_free p s") (simp_all add: os_realloc_def)
next
  assume a: "p \<noteq> NULL
         \<and> (\<forall>x\<in>set xs. status (mem s x) = STATUS_MAPPED \<longrightarrow> bsize (mem s x) + META_BLOCK_SIZE \<noteq> 0)"
  then obtain s1 where "os_free p s = Some s1"
    using os_free_returns [OF assms, of p] by blast
  then show "\<exists>s1. os_free p s = Some s1 \<and> os_realloc p 0 s = Some (NULL, s1)"
    using a by (simp add: os_realloc_def)
next
  assume "p \<noteq> NULL \<and> sz \<noteq> 0 \<and> (\<forall>x\<in>set xs. payload x \<noteq> p)"
  then show "os_realloc p sz s = Some (NULL, s)"
    using search_block_in_list_not_found [OF assms, of p] by (simp add: os_realloc_def)
next
  fix x assume x: "x \<in> set xs"
    and a: "sz \<noteq> 0 \<and> payload x = p \<and> status (mem s x) = STATUS_FREE"
  from dlist_block [OF assms x] a have "p \<noteq> NULL" using payload_not_NULL by auto
  then show "os_realloc p sz s = Some (NULL, s)"
    using search_block_in_list_found [OF assms x] a by (auto simp add: os_realloc_def)
next
  fix x assume x: "x \<in> set xs"
    and a: "sz \<noteq> 0 \<and> payload x = p \<and> status (mem s x) \<noteq> STATUS_FREE
            \<and> ALIGN sz = bsize (mem s x)"
  from dlist_block [OF assms x] a have "p \<noteq> NULL" "x \<noteq> NULL" using payload_not_NULL by auto
  then show "os_realloc p sz s = Some (p, s)"
    using search_block_in_list_found [OF assms x] a by (auto simp add: os_realloc_def Let_def)
qed

text \<open>
  The first steps of \<^verbatim>\<open>os_realloc\<close>, once the list is well formed (the sentinel has
  been initialised by an earlier allocation): \<^verbatim>\<open>os_realloc(NULL, s)\<close> is \<^verbatim>\<open>os_malloc(s)\<close>;
  \<^verbatim>\<open>os_realloc(p, 0)\<close> with a non-null \<open>p\<close> is \<^verbatim>\<open>os_free(p)\<close> followed by returning null
  (and it returns, provided no mapped block has an empty region); with a non-null \<open>p\<close>
  and a non-zero size it returns null and leaves the state unchanged when no block of
  the list has its payload at \<open>p\<close> or when the block that has is free; and it returns \<open>p\<close>
  and leaves the state unchanged when the block is not free and the size rounded up to
  a multiple of 8 equals the size of the block.
\<close>

theorem os_realloc_preamble:
  "os_realloc NULL sz s = os_malloc sz s
    \<and> (p \<noteq> NULL \<longrightarrow> os_realloc p 0 s = map_option (Pair NULL) (os_free p s))
    \<and> (dlist s xs \<longrightarrow>
        (p \<noteq> NULL
           \<and> (\<forall>x\<in>set xs. status (mem s x) = STATUS_MAPPED
                  \<longrightarrow> bsize (mem s x) + META_BLOCK_SIZE \<noteq> 0)
           \<longrightarrow> (\<exists>s1. os_free p s = Some s1 \<and> os_realloc p 0 s = Some (NULL, s1)))
      \<and> (p \<noteq> NULL \<and> sz \<noteq> 0 \<and> (\<forall>x\<in>set xs. payload x \<noteq> p)
           \<longrightarrow> os_realloc p sz s = Some (NULL, s))
      \<and> (\<forall>x\<in>set xs. sz \<noteq> 0 \<and> payload x = p \<and> status (mem s x) = STATUS_FREE
            \<longrightarrow> os_realloc p sz s = Some (NULL, s))
      \<and> (\<forall>x\<in>set xs. sz \<noteq> 0 \<and> payload x = p \<and> status (mem s x) \<noteq> STATUS_FREE
              \<and> ALIGN sz = bsize (mem s x)
            \<longrightarrow> os_realloc p sz s = Some (p, s)))"
proof (intro conjI impI)
  show "os_realloc NULL sz s = os_malloc sz s"
    by (simp add: os_realloc_def)
next
  assume "p \<noteq> NULL"
  then show "os_realloc p 0 s = map_option (Pair NULL) (os_free p s)"
    by (cases "os_free p s") (simp_all add: os_realloc_def)
qed (use os_realloc_cases [of s xs sz p] in blast)+

theorem os_realloc_preamble_witness:
  "dlist example_state example_blocks
   \<and> os_realloc NULL 16 example_state = os_malloc 16 example_state
   \<and> os_realloc (At 0x1080) 0 example_state
       = map_option (Pair NULL) (os_free (At 0x1080) example_state)
   \<and> (\<exists>s1. os_free (At 0x1080) example_state = Some s1
          \<and> os_realloc (At 0x1080) 0 example_state = Some (NULL, s1))
   \<and> os_realloc (At 0x5000) 16 example_state = Some (NULL, example_state)
   \<and> At 0x1000 \<in> set example_blocks \<and> payload (At 0x1000) = At 0x1020
   \<and> status (mem example_state (At 0x1000)) = STATUS_FREE
   \<and> os_realloc (At 0x1020) 16 example_state = Some (NULL, example_state)
   \<and> At 0x1060 \<in> set example_blocks \<and> payload (At 0x1060) = At 0x1080
   \<and> status (mem example_state (At 0x1060)) \<noteq> STATUS_FREE
   \<and> ALIGN 30 = bsize (mem example_state (At 0x1060))
   \<and> os_realloc (At 0x1080) 30 example_state = Some (At 0x1080, example_state)"
proof -
  have f: "At 0x1000 \<in> set example_blocks" "payload (At 0x1000) = At 0x1020"
      "status (mem example_state (At 0x1000)) = STATUS_FREE"
    and a: "At 0x1060 \<in> set example_blocks" "payload (At 0x1060) = At 0x1080"
      "status (mem example_state (At 0x1060)) \<noteq> STATUS_FREE"
      "ALIGN 30 = bsize (mem example_state (At 0x1060))"
    and n: "\<forall>x\<in>set example_blocks. payload x \<noteq> At 0x5000"
    and m: "\<forall>x\<in>set example_blocks. status (mem example_state x) = STATUS_MAPPED
              \<longrightarrow> bsize (mem example_state x) + META_BLOCK_SIZE \<noteq> 0"
    by (simp_all add: example_blocks_def example_state_def payload_def META_BLOCK_SIZE_eq
          ALIGN_def ALIGNMENT_def)
  have 1: "os_realloc NULL 16 example_state = os_malloc 16 example_state"
    using os_realloc_preamble [of 16 example_state NULL example_blocks] by blast
  have 2: "os_realloc (At 0x1080) 0 example_state
       = map_option (Pair NULL) (os_free (At 0x1080) example_state)"
    and 3: "\<exists>s1. os_free (At 0x1080) example_state = Some s1
          \<and> os_realloc (At 0x1080) 0 example_state = Some (NULL, s1)"
    using os_realloc_preamble [of 0 example_state "At 0x1080" example_blocks] m dlist_example
    by blast+
  have 4: "os_realloc (At 0x5000) 16 example_state = Some (NULL, example_state)"
    using os_realloc_preamble [of 16 example_state "At 0x5000" example_blocks] n dlist_example
    by simp
  have 5: "os_realloc (At 0x1020) 16 example_state = Some (NULL, example_state)"
    using os_realloc_preamble [of 16 example_state "At 0x1020" example_blocks] f dlist_example
    by auto
  have 6: "os_realloc (At 0x1080) 30 example_state = Some (At 0x1080, example_state)"
    using os_realloc_preamble [of 30 example_state "At 0x1080" example_blocks] a dlist_example
    by auto
  from dlist_example f a 1 2 3 4 5 6 show ?thesis by blast
qed

text \<open>
  Claim C4, as the code has it. The claim fails on the first call of a process.
  \<^verbatim>\<open>os_malloc\<close> and \<^verbatim>\<open>os_calloc\<close> initialise the sentinel on their first call;
  \<^verbatim>\<open>os_realloc\<close> does not. Called first, with a pointer that no block owns and a
  non-zero size, it starts its scan at the null \<^verbatim>\<open>next\<close> link of the sentinel and reads
  through it: the call does not return, where the claim has it return null with no state
  change. Had the sentinel been initialised, the same call would return null and change
  nothing.
\<close>

theorem os_realloc_unknown_pointer_first_call:
  "os_realloc (At 0x2000) 16 (initial_state 0x1000 0x100000 []) = None
   \<and> os_realloc (At 0x2000) 16 (head_init (initial_state 0x1000 0x100000 []))
       = Some (NULL, head_init (initial_state 0x1000 0x100000 []))"
  using os_realloc_before_init [of "At 0x2000" 16 "0x1000" "0x100000" "[]"]
    os_realloc_after_head_init [of "At 0x2000" 16 "initial_state 0x1000 0x100000 []"]
  by (simp add: META_BLOCK_SIZE_eq)

lemma chain_prev_HEAD: "chain m p xs \<Longrightarrow> prev (m HEAD) = last (p # xs)"
  by (induction xs arbitrary: p) auto

lemma get_last_on_heap_loop_skip:
  assumes "chain (mem s) p (pre @ block # post1 @ post2)"
    and "\<forall>y\<in>set post1. status (mem s y) = STATUS_MAPPED"
    and "status (mem s block) \<noteq> STATUS_MAPPED"
  shows "get_last_on_heap_loop s (last (block # post1)) = Some block"
  using assms
proof (induction post1 arbitrary: post2 rule: rev_induct)
  case Nil
  from chain_split [OF Nil.prems(1) [simplified]] have "block \<noteq> NULL" by simp
  then show ?case
    using Nil.prems(3) by (subst get_last_on_heap_loop.simps) simp
next
  case (snoc y post1)
  have c: "chain (mem s) p ((pre @ block # post1) @ y # post2)"
    using snoc.prems(1) by simp
  from chain_split [OF c] have y: "y \<noteq> HEAD" "y \<noteq> NULL"
    "prev (mem s y) = last (block # post1)"
    by simp_all
  have "get_last_on_heap_loop s (last (block # post1)) = Some block"
    using snoc.IH [of "y # post2"] snoc.prems by simp
  then show ?case
    using y snoc.prems(2) by (subst get_last_on_heap_loop.simps) simp
qed

lemma get_last_on_heap_last:
  assumes "dlist s (pre @ block # post)"
    and "\<forall>y\<in>set post. status (mem s y) = STATUS_MAPPED"
    and "status (mem s block) \<noteq> STATUS_MAPPED"
  shows "get_last_on_heap s = Some block"
proof -
  from assms(1) have c: "chain (mem s) HEAD (pre @ block # post @ [])"
    by (simp add: dlist_def)
  have "prev (mem s HEAD) = last (block # post)"
    using chain_prev_HEAD [OF c] by simp
  moreover have "get_last_on_heap_loop s (last (block # post)) = Some block"
    by (rule get_last_on_heap_loop_skip [OF c assms(2,3)])
  moreover have "block \<noteq> HEAD" using chain_split [OF c] by simp
  ultimately show ?thesis by (simp add: get_last_on_heap_def)
qed

lemma sbrk_success:
  assumes "fst (sbrk d s) \<noteq> None"
  shows "sbrk d s = (Some (brk s), s\<lparr>sbrk_calls := sbrk_calls s @ [d], brk := brk s + d\<rparr>)"
proof -
  have "word_of_int (uint (brk s) + sint d) = brk s + d"
    by simp
  then show ?thesis
    using assms by (auto simp add: sbrk_def Let_def split: if_splits)
qed

text \<open>
  Claim C6. Let \<open>block\<close> be an allocated block of a well-formed list that is followed in
  the list by mapped blocks only, so that it is the last heap block, and let \<open>p\<close> be its
  payload pointer. When the new size rounded up to a multiple of 8, \<open>a\<close>, is larger than
  the size of the block and below \<^verbatim>\<open>MMAP_THRESHOLD\<close>, and the kernel grants the
  extension, \<^verbatim>\<open>os_realloc\<close> returns \<open>p\<close> itself; \<^verbatim>\<open>sbrk\<close> was called once, with
  \<open>a - block.size\<close>, the break is higher by exactly that, the size of the block is \<open>a\<close>,
  and nothing else changed.
\<close>

theorem os_realloc_extends_last_heap_block:
  assumes "dlist s (pre @ block # post)"
    and "\<forall>y\<in>set post. status (mem s y) = STATUS_MAPPED"
    and "status (mem s block) = STATUS_ALLOC"
    and "payload block = p" and "sz \<noteq> 0"
    and "bsize (mem s block) < ALIGN sz" and "ALIGN sz < MMAP_THRESHOLD"
    and "fst (sbrk (ALIGN sz - bsize (mem s block)) s) \<noteq> None"
  shows "os_realloc p sz s
           = Some (p, s\<lparr>mem := (mem s)(block := (mem s block)\<lparr>bsize := ALIGN sz\<rparr>),
                        brk := brk s + (ALIGN sz - bsize (mem s block)),
                        sbrk_calls := sbrk_calls s @ [ALIGN sz - bsize (mem s block)]\<rparr>)"
proof -
  have b: "block \<in> set (pre @ block # post)" by simp
  note nn = dlist_block [OF assms(1) b]
  have pn: "p \<noteq> NULL" using nn assms(4) payload_not_NULL by auto
  have srch: "search_block_in_list p s = Some block"
    using search_block_in_list_found [OF assms(1) b] assms(4) by simp
  have last: "get_last_on_heap s = Some block"
    using assms(1,2,3) by (intro get_last_on_heap_last) simp_all
  let ?d = "ALIGN sz - bsize (mem s block)"
  have ex: "expand_last_block (ALIGN sz) s
              = Some (block, s\<lparr>mem := (mem s)(block := (mem s block)\<lparr>bsize := ALIGN sz\<rparr>),
                        brk := brk s + ?d, sbrk_calls := sbrk_calls s @ [?d]\<rparr>)"
    using nn
    by (simp add: expand_last_block_def last sbrk_success [OF assms(8)] set_size_def Let_def)
  have nt: "\<not> MMAP_THRESHOLD \<le> ALIGN sz" using assms(7) by simp
  have "extend_realloc block (ALIGN sz) s
          = Some (p, s\<lparr>mem := (mem s)(block := (mem s block)\<lparr>bsize := ALIGN sz\<rparr>),
                        brk := brk s + ?d, sbrk_calls := sbrk_calls s @ [?d]\<rparr>)"
    using assms(3,4) nt nn by (simp add: extend_realloc_def last ex)
  moreover have "ALIGN sz \<noteq> bsize (mem s block)" using assms(6) by auto
  ultimately show ?thesis
    using pn assms(3,5,6) nn by (simp add: os_realloc_def srch Let_def)
qed

theorem os_realloc_extends_last_heap_block_witness:
  "dlist example_state ([At 0x1000, At 0x1060, At 0x10A0] @ At 0x10E0 # [At 0x7f0000000000])
   \<and> status (mem example_state (At 0x7f0000000000)) = STATUS_MAPPED
   \<and> status (mem example_state (At 0x10E0)) = STATUS_ALLOC
   \<and> payload (At 0x10E0) = At 0x1100
   \<and> bsize (mem example_state (At 0x10E0)) < ALIGN 131000 \<and> ALIGN 131000 < MMAP_THRESHOLD
   \<and> fst (sbrk (ALIGN 131000 - bsize (mem example_state (At 0x10E0))) example_state) \<noteq> None
   \<and> os_realloc (At 0x1100) 131000 example_state
       = Some (At 0x1100,
               example_state\<lparr>mem := (mem example_state)
                                (At 0x10E0 := (mem example_state (At 0x10E0))\<lparr>bsize := 131000\<rparr>),
                             brk := 0x210B8, sbrk_calls := [131072, 184]\<rparr>)"
proof -
  have d: "dlist example_state ([At 0x1000, At 0x1060, At 0x10A0] @ At 0x10E0 # [At 0x7f0000000000])"
    using dlist_example by (simp add: example_blocks_def)
  have al: "ALIGN 131000 = 131000"
    by (simp add: ALIGN_def ALIGNMENT_def)
  have h: "\<forall>y\<in>set [At 0x7f0000000000]. status (mem example_state y) = STATUS_MAPPED"
      "status (mem example_state (At 0x10E0)) = STATUS_ALLOC"
      "payload (At 0x10E0) = At 0x1100" "(131000 :: size_t) \<noteq> 0"
      "bsize (mem example_state (At 0x10E0)) < ALIGN 131000" "ALIGN 131000 < MMAP_THRESHOLD"
      "fst (sbrk (ALIGN 131000 - bsize (mem example_state (At 0x10E0))) example_state) \<noteq> None"
    by (simp_all add: al example_state_def payload_def META_BLOCK_SIZE_eq MMAP_THRESHOLD_def
          sbrk_def Let_def)
  have v: "131000 - bsize (mem example_state (At 0x10E0)) = 184"
      "brk example_state + 184 = 0x210B8" "sbrk_calls example_state @ [184] = [131072, 184]"
    by (simp_all add: example_state_def)
  from os_realloc_extends_last_heap_block [OF d h]
  have "os_realloc (At 0x1100) 131000 example_state
       = Some (At 0x1100,
               example_state\<lparr>mem := (mem example_state)
                                (At 0x10E0 := (mem example_state (At 0x10E0))\<lparr>bsize := 131000\<rparr>),
                             brk := 0x210B8, sbrk_calls := [131072, 184]\<rparr>)"
    unfolding al v .
  with d h show ?thesis by simp
qed

section \<open>Adjacent free blocks\<close>

subsection \<open>Blocks that fill the heap\<close>

lemma heap_statuses_blocks:
  "heap_statuses s xs = map (\<lambda>x. status (mem s x)) (heap_blocks s xs)"
  by (induction xs) (simp_all add: heap_statuses_def heap_blocks_def)

lemma tiles_le: "tiles m a H e \<Longrightarrow> unat a \<le> unat e"
proof (induction H arbitrary: a)
  case Nil
  then show ?case by simp
next
  case (Cons x H)
  then show ?case by simp
qed

lemma tiles_cong:
  "\<forall>x\<in>set H. bsize (m' x) = bsize (m x) \<Longrightarrow> tiles m' a H e = tiles m a H e"
  by (induction H arbitrary: a) auto

lemma unat_block_end:
  fixes a sz :: size_t
  assumes "unat a + unat META_BLOCK_SIZE + unat sz \<le> unat (e :: size_t)"
  shows "unat (a + META_BLOCK_SIZE + sz) = unat a + unat META_BLOCK_SIZE + unat sz"
proof -
  have "unat e < 2 ^ 64" using unsigned_less [of e, where ?'a = nat] by simp
  with assms have b: "unat a + unat META_BLOCK_SIZE + unat sz < 2 ^ 64" by simp
  then have "unat (a + META_BLOCK_SIZE) = unat a + unat META_BLOCK_SIZE"
    by (simp add: unat_word_ariths)
  with b show ?thesis by (simp add: unat_word_ariths)
qed

lemma tiles_member:
  "tiles m a H e \<Longrightarrow> x \<in> set H \<Longrightarrow>
   \<exists>b. x = At b \<and> unat a \<le> unat b \<and> unat b + unat META_BLOCK_SIZE + unat (bsize (m x)) \<le> unat e"
proof (induction H arbitrary: a)
  case Nil
  then show ?case by simp
next
  case (Cons y H)
  show ?case
  proof (cases "x = y")
    case True
    with Cons.prems show ?thesis by auto
  next
    case False
    with Cons.prems have t: "tiles m (a + META_BLOCK_SIZE + bsize (m y)) H e" and x: "x \<in> set H"
      and b: "unat a + unat META_BLOCK_SIZE + unat (bsize (m y)) \<le> unat e"
      by auto
    from Cons.IH [OF t x] obtain b' where
      "x = At b'" "unat (a + META_BLOCK_SIZE + bsize (m y)) \<le> unat b'"
      "unat b' + unat META_BLOCK_SIZE + unat (bsize (m x)) \<le> unat e"
      by blast
    moreover have "unat (a + META_BLOCK_SIZE + bsize (m y))
                     = unat a + unat META_BLOCK_SIZE + unat (bsize (m y))"
      using b by (rule unat_block_end)
    ultimately show ?thesis by auto
  qed
qed

lemma tiles_append:
  "tiles m a (H1 @ H2) e \<longleftrightarrow> (\<exists>c. tiles m a H1 c \<and> tiles m c H2 e)"
proof (induction H1 arbitrary: a)
  case Nil
  then show ?case by simp
next
  case (Cons x H1)
  show ?case
  proof
    assume l: "tiles m a ((x # H1) @ H2) e"
    then obtain c where c: "tiles m (a + META_BLOCK_SIZE + bsize (m x)) H1 c" "tiles m c H2 e"
      using Cons.IH by auto
    have "unat (a + META_BLOCK_SIZE + bsize (m x)) \<le> unat c" using c(1) by (rule tiles_le)
    moreover have "unat a + unat META_BLOCK_SIZE + unat (bsize (m x)) \<le> unat e"
      using l by auto
    then have "unat (a + META_BLOCK_SIZE + bsize (m x))
                     = unat a + unat META_BLOCK_SIZE + unat (bsize (m x))"
      by (rule unat_block_end)
    ultimately have "unat a + unat META_BLOCK_SIZE + unat (bsize (m x)) \<le> unat c" by simp
    with l c show "\<exists>c. tiles m a (x # H1) c \<and> tiles m c H2 e" by auto
  next
    assume "\<exists>c. tiles m a (x # H1) c \<and> tiles m c H2 e"
    then obtain c where c: "tiles m a (x # H1) c" "tiles m c H2 e" by blast
    have "unat c \<le> unat e" using c(2) by (rule tiles_le)
    with c show "tiles m a ((x # H1) @ H2) e" using Cons.IH by auto
  qed
qed

lemma unat_sum_le: "unat (a + b :: size_t) \<le> unat a + unat b"
  by (simp add: unat_word_ariths)

lemma tiles_merge:
  assumes "tiles m a (H1 @ c # x # H2) e" "distinct (H1 @ c # x # H2)"
    and "\<forall>q. bsize (m' q) = (if q = c then bsize (m c) + (META_BLOCK_SIZE + bsize (m x))
                               else bsize (m q))"
  shows "tiles m' a (H1 @ c # H2) e"
proof -
  from assms(1) obtain c0 where c0: "tiles m a H1 c0" "tiles m c0 (c # x # H2) e"
    unfolding tiles_append by blast
  have 1: "tiles m' a H1 c0 = tiles m a H1 c0"
    by (rule tiles_cong) (use assms(2,3) in auto)
  from c0(2) have c: "c = At c0"
    and b1: "unat c0 + unat META_BLOCK_SIZE + unat (bsize (m c)) \<le> unat e"
    and x: "x = At (c0 + META_BLOCK_SIZE + bsize (m c))"
    and b2: "unat (c0 + META_BLOCK_SIZE + bsize (m c)) + unat META_BLOCK_SIZE + unat (bsize (m x))
               \<le> unat e"
    and t2: "tiles m (c0 + META_BLOCK_SIZE + bsize (m c) + META_BLOCK_SIZE + bsize (m x)) H2 e"
    by auto
  have u: "unat (c0 + META_BLOCK_SIZE + bsize (m c))
             = unat c0 + unat META_BLOCK_SIZE + unat (bsize (m c))"
    using b1 by (rule unat_block_end)
  have "unat (bsize (m c) + (META_BLOCK_SIZE + bsize (m x)))
          \<le> unat (bsize (m c)) + (unat META_BLOCK_SIZE + unat (bsize (m x)))"
    using unat_sum_le [of "bsize (m c)" "META_BLOCK_SIZE + bsize (m x)"]
      unat_sum_le [of META_BLOCK_SIZE "bsize (m x)"]
    by linarith
  with b2 u have b: "unat c0 + unat META_BLOCK_SIZE + unat (bsize (m' c)) \<le> unat e"
    using assms(3) by simp
  have cg: "tiles m' (c0 + META_BLOCK_SIZE + bsize (m c) + META_BLOCK_SIZE + bsize (m x)) H2 e
          = tiles m (c0 + META_BLOCK_SIZE + bsize (m c) + META_BLOCK_SIZE + bsize (m x)) H2 e"
    by (rule tiles_cong) (use assms(2,3) in auto)
  have eq: "c0 + META_BLOCK_SIZE + bsize (m' c)
                   = c0 + META_BLOCK_SIZE + bsize (m c) + META_BLOCK_SIZE + bsize (m x)"
    using assms(3) by (simp add: add.assoc)
  from t2 have "tiles m' (c0 + META_BLOCK_SIZE + bsize (m c) + META_BLOCK_SIZE + bsize (m x)) H2 e"
    by (simp only: cg)
  then have "tiles m' (c0 + META_BLOCK_SIZE + bsize (m' c)) H2 e"
    by (simp only: eq)
  then have "tiles m' c0 (c # H2) e"
    using c b by simp
  with c0(1) 1 show ?thesis unfolding tiles_append by blast
qed

subsection \<open>The coalesce pass\<close>

lemma heap_blocks_cong:
  "\<forall>q. status (mem s' q) = status (mem s q) \<Longrightarrow> heap_blocks s' xs = heap_blocks s xs"
  by (simp add: heap_blocks_def)

lemma heap_blocks_Nil: "heap_blocks s [] = []"
  by (simp add: heap_blocks_def)

lemma heap_blocks_append: "heap_blocks s (xs @ ys) = heap_blocks s xs @ heap_blocks s ys"
  by (simp add: heap_blocks_def)

lemma heap_blocks_Cons:
  "heap_blocks s (x # xs) = (if status (mem s x) = STATUS_MAPPED then heap_blocks s xs
                              else x # heap_blocks s xs)"
  by (simp add: heap_blocks_def)

lemma heap_blocks_subset: "set (heap_blocks s xs) \<subseteq> set xs"
  by (auto simp add: heap_blocks_def)

lemma heap_blocks_distinct: "distinct xs \<Longrightarrow> distinct (heap_blocks s xs)"
  by (simp add: heap_blocks_def)

lemma coalesce_blocks_frame:
  "bsize (mem (coalesce_blocks c x s) q)
     = (if q = c then bsize (mem s c) + (META_BLOCK_SIZE + bsize (mem s x)) else bsize (mem s q))"
  "(coalesce_blocks c x s)\<lparr>mem := mem s\<rparr> = s"
  by (simp_all add: coalesce_blocks_def list_remove_block_def set_size_def set_next_def
        set_prev_def Let_def)

lemma coalesce_loop_layout:
  assumes "dlist s (done @ rest)"
    and "tiles (mem s) b0 (heap_blocks s (done @ rest)) e"
    and "no_adjacent_free (heap_statuses s done)"
    and "if c1 = NULL then heap_statuses s done = [] \<or> last (heap_statuses s done) \<noteq> STATUS_FREE
         else heap_blocks s done \<noteq> [] \<and> last (heap_blocks s done) = c1
              \<and> status (mem s c1) = STATUS_FREE"
  shows "\<exists>s' ys. coalesce_attempt_loop s (hd (rest @ [HEAD])) c1 = Some s'
           \<and> coalesced s (done @ rest) b0 e s' ys"
  using assms
proof (induction rest arbitrary: s "done" c1)
  case Nil
  then show ?case
    by (subst coalesce_attempt_loop.simps) (auto simp add: coalesced_def)
next
  case (Cons x rest)
  note f = dlist_split [OF Cons.prems(1)]
  let ?hs = "heap_statuses s done"
  have d': "dlist s ((done @ [x]) @ rest)" using Cons.prems(1) by simp
  have t': "tiles (mem s) b0 (heap_blocks s ((done @ [x]) @ rest)) e" using Cons.prems(2) by simp
  consider (alloc) "status (mem s x) = STATUS_ALLOC"
    | (mapped) "status (mem s x) = STATUS_MAPPED"
    | (free_first) "status (mem s x) = STATUS_FREE" "c1 = NULL"
    | (free_merge) "status (mem s x) = STATUS_FREE" "c1 \<noteq> NULL"
    by (cases "status (mem s x)") auto
  then show ?case
  proof cases
    case alloc
    have "\<exists>s' ys. coalesce_attempt_loop s (hd (rest @ [HEAD])) NULL = Some s'
           \<and> coalesced s ((done @ [x]) @ rest) b0 e s' ys"
      by (rule Cons.IH [OF d' t'])
         (use alloc Cons.prems(3) in \<open>simp_all add: heap_statuses_snoc naf_snoc\<close>)
    then show ?thesis
      using f alloc by (subst coalesce_attempt_loop.simps) simp
  next
    case mapped
    have "\<exists>s' ys. coalesce_attempt_loop s (hd (rest @ [HEAD])) c1 = Some s'
           \<and> coalesced s ((done @ [x]) @ rest) b0 e s' ys"
      by (rule Cons.IH [OF d' t'])
         (use mapped Cons.prems(3,4) in \<open>simp_all add: heap_statuses_snoc heap_blocks_append heap_blocks_Cons heap_blocks_Nil\<close>)
    then show ?thesis
      using f mapped by (subst coalesce_attempt_loop.simps) simp
  next
    case free_first
    have "\<exists>s' ys. coalesce_attempt_loop s (hd (rest @ [HEAD])) x = Some s'
           \<and> coalesced s ((done @ [x]) @ rest) b0 e s' ys"
      by (rule Cons.IH [OF d' t'])
         (use free_first f Cons.prems(3,4) in
           \<open>auto simp add: heap_statuses_snoc naf_snoc heap_blocks_append heap_blocks_Cons heap_blocks_Nil\<close>)
    then show ?thesis
      using f free_first by (subst coalesce_attempt_loop.simps) simp
  next
    case free_merge
    let ?s1 = "coalesce_blocks c1 x s"
    have st: "\<forall>q. status (mem ?s1 q) = status (mem s q)"
      by (simp add: coalesce_blocks_status)
    have d1: "dlist ?s1 (done @ rest)"
      using Cons.prems(1) by (rule coalesce_blocks_dlist)
    have hs: "heap_statuses ?s1 done = ?hs"
      using st by (rule heap_statuses_cong)
    have hb: "heap_blocks ?s1 zs = heap_blocks s zs" for zs
      using st by (rule heap_blocks_cong)
    from Cons.prems(4) free_merge have a: "heap_blocks s done \<noteq> []"
      "last (heap_blocks s done) = c1" "status (mem s c1) = STATUS_FREE"
      by simp_all
    define H1 where "H1 = butlast (heap_blocks s done)"
    have hd: "heap_blocks s done = H1 @ [c1]"
      using append_butlast_last_id [OF a(1)] a(2) by (simp add: H1_def)
    have hx: "heap_blocks s (done @ x # rest) = H1 @ c1 # x # heap_blocks s rest"
      using free_merge hd by (simp add: heap_blocks_append heap_blocks_Cons)
    have dist: "distinct (H1 @ c1 # x # heap_blocks s rest)"
      using Cons.prems(1) heap_blocks_distinct [of "done @ x # rest" s]
      by (simp add: dlist_def hx)
    have t1: "tiles (mem ?s1) b0 (heap_blocks ?s1 (done @ rest)) e"
    proof -
      have "tiles (mem ?s1) b0 (H1 @ c1 # heap_blocks s rest) e"
        by (rule tiles_merge [where x = x and m = "mem s"])
           (use Cons.prems(2) hx dist in \<open>simp_all add: coalesce_blocks_frame\<close>)
      then show ?thesis by (simp add: hb heap_blocks_append hd)
    qed
    have "\<exists>s' ys. coalesce_attempt_loop ?s1 (hd (rest @ [HEAD])) c1 = Some s'
           \<and> coalesced ?s1 (done @ rest) b0 e s' ys"
      by (rule Cons.IH [OF d1 t1]) (use Cons.prems(3) a free_merge hs in \<open>simp_all add: hb st\<close>)
    then obtain s' ys where r: "coalesce_attempt_loop ?s1 (hd (rest @ [HEAD])) c1 = Some s'"
      "coalesced ?s1 (done @ rest) b0 e s' ys"
      by blast
    have "s'\<lparr>mem := mem s\<rparr> = (s'\<lparr>mem := mem ?s1\<rparr>)\<lparr>mem := mem s\<rparr>" by simp
    also have "\<dots> = s" using r(2) by (simp add: coalesced_def coalesce_blocks_frame)
    finally have fr: "s'\<lparr>mem := mem s\<rparr> = s" .
    have "coalesced s (done @ x # rest) b0 e s' ys"
      using r(2) fr st by (auto simp add: coalesced_def)
    then show ?thesis
      using f free_merge r(1) by (subst coalesce_attempt_loop.simps) auto
  qed
qed

subsection \<open>Statuses, the end of the list and the last heap block\<close>

lemma aligned8_ALIGN: "aligned8 (ALIGN x)"
proof -
  have "((x + mask 3) AND NOT (mask 3)) AND mask 3 = (0 :: size_t)"
    by (simp add: and.assoc)
  then have "8 dvd unat ((x + mask 3) AND NOT (mask 3 :: size_t))"
    using and_mask_dvd_nat [of 3 "(x + mask 3) AND NOT (mask 3 :: size_t)"] by simp
  then show ?thesis
    by (simp add: aligned8_def ALIGN_def ALIGNMENT_def seven_mask)
qed

lemma ALIGN_idem: "ALIGN (ALIGN x) = ALIGN x"
  by (rule ALIGN_aligned8) (rule aligned8_ALIGN)

lemma naf_append:
  "no_adjacent_free (A @ B) =
     (no_adjacent_free A \<and> no_adjacent_free B
      \<and> (A = [] \<or> B = [] \<or> last A \<noteq> STATUS_FREE \<or> hd B \<noteq> STATUS_FREE))"
proof (induction A)
  case Nil
  show ?case by simp
next
  case (Cons a A)
  note ih = Cons.IH
  show ?case
  proof (cases A)
    case Nil
    then show ?thesis by (cases B) auto
  next
    case (Cons b A')
    then show ?thesis using ih by auto
  qed
qed

lemma naf_set_alloc:
  "no_adjacent_free (heap_statuses s xs) \<Longrightarrow>
   no_adjacent_free (heap_statuses (set_status r STATUS_ALLOC s) xs)
   \<and> (heap_statuses (set_status r STATUS_ALLOC s) xs = []
      \<or> last (heap_statuses (set_status r STATUS_ALLOC s) xs) \<noteq> STATUS_FREE
      \<or> (heap_statuses s xs \<noteq> [] \<and> last (heap_statuses s xs) = STATUS_FREE))"
proof (induction xs rule: rev_induct)
  case Nil
  then show ?case by (simp add: heap_statuses_def)
next
  case (snoc x xs)
  have st: "status (mem (set_status r STATUS_ALLOC s) x)
              = (if x = r then STATUS_ALLOC else status (mem s x))"
    by (simp add: set_status_def)
  from snoc.prems have "no_adjacent_free (heap_statuses s xs)"
    by (auto simp add: heap_statuses_snoc naf_snoc split: if_splits)
  note ih = snoc.IH [OF this]
  show ?case
    using ih snoc.prems st
    by (cases "status (mem s x)") (auto simp add: heap_statuses_snoc naf_snoc split: if_splits)
qed

lemma list_add_last_frame:
  "status (mem (list_add_last new s) q) = status (mem s q)"
  "bsize (mem (list_add_last new s) q) = bsize (mem s q)"
  "(list_add_last new s)\<lparr>mem := mem s\<rparr> = s"
  by (simp_all add: list_add_last_def Let_def set_next_def set_prev_def)

lemma list_add_last_fields:
  assumes "dlist s xs" "new \<notin> set xs" "new \<noteq> HEAD"
  shows "bnext (mem (list_add_last new s) q)
           = (if q = last (HEAD # xs) then new else if q = new then HEAD else bnext (mem s q))"
    and "prev (mem (list_add_last new s) q)
           = (if q = new then last (HEAD # xs) else if q = HEAD then new else prev (mem s q))"
proof -
  from assms(1) have "prev (mem s HEAD) = last (HEAD # xs)"
    using chain_prev_HEAD [of "mem s" HEAD xs] by (simp add: dlist_def)
  moreover have "new \<noteq> last (HEAD # xs)"
    using assms(2,3) by (cases xs rule: rev_cases) auto
  ultimately show "bnext (mem (list_add_last new s) q)
           = (if q = last (HEAD # xs) then new else if q = new then HEAD else bnext (mem s q))"
    and "prev (mem (list_add_last new s) q)
           = (if q = new then last (HEAD # xs) else if q = HEAD then new else prev (mem s q))"
    using assms(3)
    by (auto simp add: list_add_last_def Let_def set_next_def set_prev_def)
qed

lemma list_add_last_dlist:
  assumes "dlist s xs" "new \<notin> set xs" "new \<noteq> HEAD" "new \<noteq> NULL"
  shows "dlist (list_add_last new s) (xs @ [new])"
proof (cases xs rule: rev_cases)
  case Nil
  then show ?thesis
    using assms list_add_last_fields [OF assms(1,2,3)]
    by (simp add: dlist_def)
next
  case (snoc pre b)
  from assms(1) have c: "chain (mem s) HEAD (pre @ b # [])" and d: "distinct (pre @ b # [])"
    by (simp_all add: dlist_def snoc)
  have h: "HEAD \<notin> set (pre @ b # [])" using chain_not_HEAD [OF c] by simp
  have n: "new \<notin> set (pre @ b # [])" using assms(2) snoc by simp
  have "chain (mem (list_add_last new s)) HEAD (pre @ b # new # [])"
    by (rule chain_insert [OF c d h n assms(3) assms(3) assms(4)])
       (use n in \<open>auto simp add: list_add_last_fields [OF assms(1,2,3)] snoc\<close>)
  with d n show ?thesis by (auto simp add: dlist_def snoc)
qed

lemma get_last_on_heap_loop_all_mapped:
  assumes "chain (mem s) HEAD (xs @ post)"
    and "\<forall>y\<in>set xs. status (mem s y) = STATUS_MAPPED"
  shows "get_last_on_heap_loop s (last (HEAD # xs)) = Some HEAD"
  using assms
proof (induction xs arbitrary: post rule: rev_induct)
  case Nil
  then show ?case by (subst get_last_on_heap_loop.simps) simp
next
  case (snoc y xs)
  have c: "chain (mem s) HEAD (xs @ y # post)" using snoc.prems(1) by simp
  from chain_split [OF c] have y: "y \<noteq> HEAD" "y \<noteq> NULL" "prev (mem s y) = last (HEAD # xs)"
    by simp_all
  have "get_last_on_heap_loop s (last (HEAD # xs)) = Some HEAD"
    using snoc.IH [of "y # post"] snoc.prems by simp
  then show ?case
    using y snoc.prems(2) by (subst get_last_on_heap_loop.simps) simp
qed

lemma get_last_on_heap_total:
  assumes "dlist s xs"
  shows "\<exists>l. get_last_on_heap s = Some l
           \<and> (l = NULL \<or> l \<in> set (heap_blocks s xs))"
proof (cases "\<exists>x\<in>set xs. status (mem s x) \<noteq> STATUS_MAPPED")
  case True
  then obtain pre x post where "xs = pre @ x # post" "status (mem s x) \<noteq> STATUS_MAPPED"
    "\<forall>z\<in>set post. \<not> status (mem s z) \<noteq> STATUS_MAPPED"
    using split_list_last_prop [of xs "\<lambda>x. status (mem s x) \<noteq> STATUS_MAPPED"] by blast
  then show ?thesis
    using get_last_on_heap_last [of s pre x post] assms by (simp add: heap_blocks_def)
next
  case False
  from assms have c: "chain (mem s) HEAD (xs @ [])" by (simp add: dlist_def)
  have "prev (mem s HEAD) = last (HEAD # xs)"
    using chain_prev_HEAD [OF c] by simp
  moreover have "get_last_on_heap_loop s (last (HEAD # xs)) = Some HEAD"
    by (rule get_last_on_heap_loop_all_mapped [OF c]) (use False in simp)
  ultimately show ?thesis by (simp add: get_last_on_heap_def)
qed

subsection \<open>Addresses no block of the list has\<close>

lemma heap_blocks_mem: "x \<in> set (heap_blocks s xs) \<longleftrightarrow> x \<in> set xs \<and> status (mem s x) \<noteq> STATUS_MAPPED"
  by (simp add: heap_blocks_def)

lemma brk_fresh:
  assumes "heap_layout s xs"
  shows "At (brk s) \<notin> set xs"
proof
  assume i: "At (brk s) \<in> set xs"
  from assms have t: "tiles (mem s) (brk_min s) (heap_blocks s xs) (brk s)"
    and le: "brk s \<le> brk_max s"
    and mp: "\<forall>x\<in>set xs. status (mem s x) = STATUS_MAPPED \<longrightarrow>
            addr_of x < brk_min s \<or> brk_max s < addr_of x"
    by (simp_all add: heap_layout_def)
  have m: "brk_min s \<le> brk s" using tiles_le [OF t] by (simp add: word_le_nat_alt)
  show False
  proof (cases "status (mem s (At (brk s))) = STATUS_MAPPED")
    case True
    with mp i have "brk s < brk_min s \<or> brk_max s < brk s" by fastforce
    with m le show False by auto
  next
    case False
    with i have "At (brk s) \<in> set (heap_blocks s xs)" by (simp add: heap_blocks_mem)
    from tiles_member [OF t this] show False by (simp add: unat_META)
  qed
qed

lemma split_fresh:
  assumes "heap_layout s (pre @ r # post)"
    and "status (mem s r) = STATUS_FREE" "a \<le> bsize (mem s r)" "bsize (mem s r) \<noteq> a"
  shows "ptr_add r (META_BLOCK_SIZE + a) \<notin> set (pre @ r # post)"
proof
  let ?xs = "pre @ r # post"
  assume i: "ptr_add r (META_BLOCK_SIZE + a) \<in> set ?xs"
  from assms(1) have t: "tiles (mem s) (brk_min s) (heap_blocks s ?xs) (brk s)"
    and le: "brk s \<le> brk_max s"
    and mp: "\<forall>x\<in>set ?xs. status (mem s x) = STATUS_MAPPED \<longrightarrow>
            addr_of x < brk_min s \<or> brk_max s < addr_of x"
    and d: "distinct ?xs"
    by (simp_all add: heap_layout_def dlist_def)
  have hb: "heap_blocks s ?xs = heap_blocks s pre @ r # heap_blocks s post"
    using assms(2) by (simp add: heap_blocks_append heap_blocks_Cons)
  from t obtain c0 where c0: "tiles (mem s) (brk_min s) (heap_blocks s pre) c0"
    "tiles (mem s) c0 (r # heap_blocks s post) (brk s)"
    unfolding hb tiles_append by blast
  from c0(2) have r: "r = At c0"
    and b: "unat c0 + unat META_BLOCK_SIZE + unat (bsize (mem s r)) \<le> unat (brk s)"
    and tp: "tiles (mem s) (c0 + META_BLOCK_SIZE + bsize (mem s r)) (heap_blocks s post) (brk s)"
    by auto
  have lo: "unat (brk_min s) \<le> unat c0" using c0(1) by (rule tiles_le)
  have al: "unat a < unat (bsize (mem s r))"
    using assms(3,4) by (simp add: word_le_nat_alt word_unat_eq_iff)
  define n where "n = c0 + META_BLOCK_SIZE + a"
  have "unat c0 + unat META_BLOCK_SIZE + unat a \<le> unat (brk s)" using al b by simp
  then have un: "unat n = unat c0 + unat META_BLOCK_SIZE + unat a"
    unfolding n_def by (rule unat_block_end)
  have ue: "unat (c0 + META_BLOCK_SIZE + bsize (mem s r))
              = unat c0 + unat META_BLOCK_SIZE + unat (bsize (mem s r))"
    using b by (rule unat_block_end)
  have new: "ptr_add r (META_BLOCK_SIZE + a) = At n"
    by (simp add: r n_def add.assoc)
  from i new have i': "At n \<in> set ?xs" by simp
  show False
  proof (cases "status (mem s (At n)) = STATUS_MAPPED")
    case True
    with mp i' have "n < brk_min s \<or> brk_max s < n" by fastforce
    then have "unat n < unat (brk_min s) \<or> unat (brk_max s) < unat n"
      by (simp add: word_less_nat_alt)
    moreover have "unat n \<le> unat (brk_max s)"
      using un al b le by (simp add: word_le_nat_alt)
    ultimately show False using lo un by simp
  next
    case False
    with i' have "At n \<in> set (heap_blocks s ?xs)" by (simp add: heap_blocks_mem)
    then consider "At n \<in> set (heap_blocks s pre)" | "At n = r" | "At n \<in> set (heap_blocks s post)"
      unfolding hb by auto
    then show False
    proof cases
      case 1
      from tiles_member [OF c0(1) 1] show False using un by (simp add: unat_META)
    next
      case 2
      with r un show False by (simp add: unat_META)
    next
      case 3
      from tiles_member [OF tp 3] show False using un ue al by (simp add: unat_META)
    qed
  qed
qed

lemma state_mem_frame:
  assumes "s'\<lparr>mem := mem s\<rparr> = s"
  shows "brk s' = brk s" "brk_min s' = brk_min s" "brk_max s' = brk_max s"
    "heap_prealloc_done s' = heap_prealloc_done s" "head_init_done s' = head_init_done s"
    "mappings s' = mappings s"
proof -
  have "brk (s'\<lparr>mem := mem s\<rparr>) = brk s'" "brk_min (s'\<lparr>mem := mem s\<rparr>) = brk_min s'"
    "brk_max (s'\<lparr>mem := mem s\<rparr>) = brk_max s'"
    "heap_prealloc_done (s'\<lparr>mem := mem s\<rparr>) = heap_prealloc_done s'"
    "head_init_done (s'\<lparr>mem := mem s\<rparr>) = head_init_done s'"
    "mappings (s'\<lparr>mem := mem s\<rparr>) = mappings s'"
    by simp_all
  then show "brk s' = brk s" "brk_min s' = brk_min s" "brk_max s' = brk_max s"
    "heap_prealloc_done s' = heap_prealloc_done s" "head_init_done s' = head_init_done s"
    "mappings s' = mappings s"
    by (simp_all only: assms)
qed

lemma coalesced_layout:
  assumes "heap_layout s xs" "coalesced s xs (brk_min s) (brk s) s' ys"
  shows "heap_layout s' ys"
proof -
  from assms(2) have f: "s'\<lparr>mem := mem s\<rparr> = s" and st: "\<forall>q. status (mem s' q) = status (mem s q)"
    and sub: "set ys \<subseteq> set xs"
    by (simp_all add: coalesced_def)
  note fr = state_mem_frame [OF f]
  have "heap_blocks s' ys = [] " if "heap_blocks s xs = []"
  proof -
    from that have "\<forall>x\<in>set xs. status (mem s x) = STATUS_MAPPED"
      by (simp add: heap_blocks_def filter_empty_conv)
    with sub st show ?thesis by (auto simp add: heap_blocks_def filter_empty_conv)
  qed
  then show ?thesis
    using assms sub st by (auto simp add: heap_layout_def coalesced_def fr)
qed

lemma heap_statuses_append:
  "heap_statuses s (xs @ ys) = heap_statuses s xs @ heap_statuses s ys"
  by (simp add: heap_statuses_def)

lemma heap_statuses_Cons:
  "heap_statuses s (x # xs) = (if status (mem s x) = STATUS_MAPPED then heap_statuses s xs
                                 else status (mem s x) # heap_statuses s xs)"
  by (simp add: heap_statuses_def)

lemma heap_statuses_cong_set:
  "\<forall>q\<in>set xs. status (mem s' q) = status (mem s q) \<Longrightarrow> heap_statuses s' xs = heap_statuses s xs"
  by (induction xs) (simp_all add: heap_statuses_def)

lemma naf_split_alloc:
  assumes "no_adjacent_free (P @ STATUS_FREE # Q)"
  shows "no_adjacent_free (P @ STATUS_ALLOC # STATUS_FREE # Q)"
proof -
  have "no_adjacent_free (STATUS_ALLOC # STATUS_FREE # Q) = no_adjacent_free (STATUS_FREE # Q)"
    by simp
  then show ?thesis
    using assms unfolding naf_append by simp
qed

lemma sbrk_cases:
  "sbrk d s = (None, s\<lparr>sbrk_calls := sbrk_calls s @ [d]\<rparr>)
   \<or> sbrk d s = (Some (brk s), s\<lparr>sbrk_calls := sbrk_calls s @ [d], brk := brk s + d\<rparr>)"
proof (cases "fst (sbrk d s) = None")
  case True
  then show ?thesis by (auto simp add: sbrk_def Let_def split: if_splits)
next
  case False
  then show ?thesis using sbrk_success by simp
qed

lemma dlist_os_update:
  "dlist (s\<lparr>sbrk_calls := c\<rparr>) xs = dlist s xs"
  "dlist (s\<lparr>sbrk_calls := c, brk := b\<rparr>) xs = dlist s xs"
  "dlist (s\<lparr>heap_prealloc_done := h\<rparr>) xs = dlist s xs"
  by (simp_all add: dlist_def)

lemma heap_statuses_os_update:
  "heap_statuses (s\<lparr>sbrk_calls := c\<rparr>) xs = heap_statuses s xs"
  "heap_statuses (s\<lparr>sbrk_calls := c, brk := b\<rparr>) xs = heap_statuses s xs"
  by (simp_all add: heap_statuses_def)

subsection \<open>Placing a request\<close>

lemma sint_small:
  fixes d :: size_t
  assumes "unat d < 2 ^ 63"
  shows "sint d = int (unat d)"
proof -
  have "int (unat d) < int (2 ^ 63)" using assms by (simp only: of_nat_less_iff)
  then have u: "uint d < 2 ^ 63" unfolding uint_nat by simp
  have "(0 :: int) \<le> uint d" by simp
  moreover have "- (2 ^ 63) \<le> (0 :: int)" by simp
  ultimately have l: "- (2 ^ 63) \<le> uint d" by (rule order_trans [rotated])
  have s: "signed_take_bit 63 (uint d) = uint d"
    using l u by (rule signed_take_bit_int_eq_self)
  have "sint d = signed_take_bit (LENGTH(64) - Suc 0) (uint d)" by (rule sint_uint)
  also have "\<dots> = signed_take_bit 63 (uint d)" by simp
  also have "\<dots> = uint d" by (rule s)
  also have "\<dots> = int (unat d)" by (rule uint_nat)
  finally show ?thesis .
qed

lemma sbrk_success_range:
  assumes "sbrk d s = (Some b, s1)"
  shows "uint (brk_min s) \<le> uint (brk s) + sint d" "uint (brk s) + sint d \<le> uint (brk_max s)"
  using assms by (auto simp add: sbrk_def Let_def split: if_splits)

lemma sbrk_grow:
  assumes "sbrk d s = (Some b, s1)" "unat d < 2 ^ 63"
  shows "unat (brk s + d) = unat (brk s) + unat d" "unat (brk s) + unat d \<le> unat (brk_max s)"
proof -
  from sbrk_success_range(2) [OF assms(1)]
  have "int (unat (brk s)) + int (unat d) \<le> int (unat (brk_max s))"
    unfolding uint_nat sint_small [OF assms(2)] .
  then show le: "unat (brk s) + unat d \<le> unat (brk_max s)" by linarith
  have "unat (brk_max s) < 2 ^ 64" using unsigned_less [of "brk_max s", where ?'a = nat] by simp
  with le show "unat (brk s + d) = unat (brk s) + unat d"
    by (simp add: unat_word_ariths)
qed

lemma split_block_attempt_frame: "(split_block_attempt b a s)\<lparr>mem := mem s\<rparr> = s"
  by (simp add: split_block_attempt_def Let_def set_size_def set_status_def set_next_def
        set_prev_def)

lemma accessible_cong:
  "brk s' = brk s \<Longrightarrow> brk_min s' = brk_min s \<Longrightarrow> mappings s' = mappings s \<Longrightarrow>
   accessible s' p n = accessible s p n"
  by (simp add: accessible_def)

lemma accessible_heap:
  "unat (brk_min s) \<le> unat (addr_of p) \<Longrightarrow> unat (addr_of p) + unat n \<le> unat (brk s) \<Longrightarrow>
   accessible s p n"
  by (simp add: accessible_def)

lemma placed_os:
  "brk (placed b s) = brk s" "brk_min (placed b s) = brk_min s"
  "mappings (placed b s) = mappings s"
  by (simp_all add: placed_def set_status_def)

lemma unat_payload:
  fixes c :: size_t
  assumes "unat c + unat META_BLOCK_SIZE + n \<le> unat (e :: size_t)"
  shows "unat (addr_of (payload (At c))) = unat c + unat META_BLOCK_SIZE"
proof -
  have "unat e < 2 ^ 64" using unsigned_less [of e, where ?'a = nat] by simp
  with assms have "unat c + unat META_BLOCK_SIZE < 2 ^ 64" by simp
  then show ?thesis by (simp add: payload_def unat_word_ariths)
qed

lemma heap_block_in_break:
  assumes "tiles (mem s) (brk_min s) H (brk s)" "b \<in> set H"
  shows "\<exists>c. b = At c \<and> unat (brk_min s) \<le> unat c
           \<and> unat c + unat META_BLOCK_SIZE + unat (bsize (mem s b)) \<le> unat (brk s)
           \<and> unat (addr_of (payload b)) = unat c + unat META_BLOCK_SIZE"
proof -
  from tiles_member [OF assms] obtain c where c: "b = At c" "unat (brk_min s) \<le> unat c"
    "unat c + unat META_BLOCK_SIZE + unat (bsize (mem s b)) \<le> unat (brk s)"
    by blast
  from c(3) have "unat (addr_of (payload (At c))) = unat c + unat META_BLOCK_SIZE"
    by (rule unat_payload)
  with c show ?thesis by blast
qed

lemma coalesce_attempt_layout:
  assumes "heap_layout s xs"
  shows "\<exists>s' ys. coalesce_attempt s = Some s' \<and> heap_layout s' ys
           \<and> no_adjacent_free (heap_statuses s' ys)
           \<and> heap_prealloc_done s' = heap_prealloc_done s"
proof -
  from assms have d: "dlist s xs" and t: "tiles (mem s) (brk_min s) (heap_blocks s xs) (brk s)"
    by (simp_all add: heap_layout_def)
  have b: "bnext (mem s HEAD) = hd (xs @ [HEAD])"
    using d by (cases xs) (simp_all add: dlist_def)
  have "\<exists>s' ys. coalesce_attempt_loop s (hd (xs @ [HEAD])) NULL = Some s'
           \<and> coalesced s ([] @ xs) (brk_min s) (brk s) s' ys"
    by (rule coalesce_loop_layout) (use d t in \<open>simp_all add: heap_statuses_def\<close>)
  then obtain s' ys where r: "coalesce_attempt s = Some s'"
    "coalesced s xs (brk_min s) (brk s) s' ys"
    using b by (auto simp add: coalesce_attempt_def)
  have "heap_layout s' ys" using assms r(2) by (rule coalesced_layout)
  moreover have "no_adjacent_free (heap_statuses s' ys)" using r(2) by (simp add: coalesced_def)
  moreover have "heap_prealloc_done s' = heap_prealloc_done s"
  proof -
    from r(2) have "s'\<lparr>mem := mem s\<rparr> = s" by (simp add: coalesced_def)
    then show ?thesis by (rule state_mem_frame(4))
  qed
  ultimately show ?thesis using r(1) by blast
qed

lemma place_after_search:
  assumes "heap_layout s ys" "no_adjacent_free (heap_statuses s ys)" "aligned8 a"
    and "unat a + unat META_BLOCK_SIZE < unat MMAP_THRESHOLD"
  shows "\<exists>b s' zs. (case find_best_block a s of
                None \<Rightarrow> None
              | Some best_block \<Rightarrow>
                  if best_block \<noteq> NULL
                  then Some (best_block, split_block_attempt best_block a s)
                  else
                    (case get_last_on_heap s of
                       None \<Rightarrow> None
                     | Some last_on_heap \<Rightarrow>
                         if last_on_heap \<noteq> NULL
                            \<and> status (mem s last_on_heap) = STATUS_FREE
                         then expand_last_block a s
                         else
                           (case sbrk (META_BLOCK_SIZE + a) s of
                              (None, s3) \<Rightarrow> Some (NULL, s3)
                            | (Some request_block, s3) \<Rightarrow>
                                (let new_block = At request_block;
                                     s4 = set_size new_block a s3
                                 in Some (new_block, list_add_last new_block s4))))) = Some (b, s')
           \<and> dlist (placed b s') zs \<and> no_adjacent_free (heap_statuses (placed b s') zs)
           \<and> (b \<noteq> NULL \<longrightarrow> accessible (placed b s') (payload b) a)"
    (is "\<exists>b s' zs. ?body = Some (b, s') \<and> ?post b s' zs")
proof -
  from assms(1) have d: "dlist s ys"
    and t: "tiles (mem s) (brk_min s) (heap_blocks s ys) (brk s)"
    by (simp_all add: heap_layout_def)
  have small: "unat a < 131072 - 32"
    using assms(4) by (simp add: unat_META MMAP_THRESHOLD_def)
  from d have nn: "NULL \<notin> set ys" using chain_not_HEAD [of "mem s" HEAD ys] by (simp add: dlist_def)
  have al: "ALIGN a = a" using assms(3) by (rule ALIGN_aligned8)
  let ?r = "best_fit_from s a NULL ys"
  have fb: "find_best_block a s = Some ?r"
    using find_best_block_from [OF d, of a] by (simp add: al)
  from best_fit_from_spec [OF nn, of s a NULL]
  consider (none) "?r = NULL"
      "\<forall>y\<in>set ys. fits s a y \<longrightarrow> NULL \<noteq> NULL \<and> bsize (mem s NULL) \<le> bsize (mem s y)"
    | (found) pre post where "ys = pre @ ?r # post" "fits s a ?r"
    by force
  then show ?thesis
  proof cases
    case none
    from get_last_on_heap_total [OF d] obtain l where l: "get_last_on_heap s = Some l"
      and lm: "l = NULL \<or> l \<in> set (heap_blocks s ys)"
      by blast
    from none(2) have nofit: "\<forall>y\<in>set ys. \<not> fits s a y" by simp
    show ?thesis
    proof (cases "l \<noteq> NULL \<and> status (mem s l) = STATUS_FREE")
      case True
      let ?d = "a - bsize (mem s l)"
      from sbrk_cases [of ?d s] show ?thesis
      proof
        assume f: "sbrk ?d s = (None, s\<lparr>sbrk_calls := sbrk_calls s @ [?d]\<rparr>)"
        have "?body = Some (NULL, s\<lparr>sbrk_calls := sbrk_calls s @ [?d]\<rparr>)"
          using fb none l True f by (simp add: expand_last_block_def Let_def)
        moreover have "?post NULL (s\<lparr>sbrk_calls := sbrk_calls s @ [?d]\<rparr>) ys"
          using d assms(2) by (simp add: placed_def dlist_os_update heap_statuses_os_update)
        ultimately show ?thesis by blast
      next
        let ?s1 = "s\<lparr>sbrk_calls := sbrk_calls s @ [?d], brk := brk s + ?d\<rparr>"
        let ?s' = "set_size l (bsize (mem ?s1 l) + ?d) ?s1"
        assume f: "sbrk ?d s = (Some (brk s), ?s1)"
        have "?body = Some (l, ?s')"
          using fb none l True f by (simp add: expand_last_block_def Let_def)
        moreover have "dlist (placed l ?s') ys"
          using d True by (simp add: placed_def set_status_dlist set_size_dlist dlist_os_update)
        moreover have "no_adjacent_free (heap_statuses (placed l ?s') ys)"
        proof -
          have "heap_statuses (placed l ?s') ys = heap_statuses (set_status l STATUS_ALLOC s) ys"
            using True by (intro heap_statuses_cong) (simp add: placed_def set_status_def set_size_def)
          then show ?thesis using naf_set_alloc [OF assms(2), of l] by simp
        qed
        moreover have "accessible (placed l ?s') (payload l) a"
        proof -
          from True lm have li: "l \<in> set (heap_blocks s ys)" by simp
          from heap_block_in_break [OF t li] obtain c where c: "l = At c"
            "unat (brk_min s) \<le> unat c"
            "unat c + unat META_BLOCK_SIZE + unat (bsize (mem s l)) \<le> unat (brk s)"
            "unat (addr_of (payload l)) = unat c + unat META_BLOCK_SIZE"
            by blast
          from li have "l \<in> set ys" by (simp add: heap_blocks_mem)
          with nofit True have "\<not> a \<le> bsize (mem s l)" by (auto simp add: fits_def)
          then have lt: "bsize (mem s l) \<le> a" by simp
          then have ud: "unat ?d = unat a - unat (bsize (mem s l))" by (rule unat_sub)
          have la: "unat (bsize (mem s l)) \<le> unat a" using lt by (simp add: word_le_nat_alt)
          have "unat ?d < 2 ^ 63" using ud small by simp
          from sbrk_grow(1) [OF f this]
          have ub: "unat (brk s + ?d) = unat (brk s) + unat ?d" .
          have "brk (placed l ?s') = brk s + ?d" "brk_min (placed l ?s') = brk_min s"
            by (simp_all add: placed_os set_size_def)
          then show ?thesis
            using c ub ud la by (intro accessible_heap) simp_all
        qed
        ultimately show ?thesis by blast
      qed
    next
      case False
      let ?d = "META_BLOCK_SIZE + a"
      from sbrk_cases [of ?d s] show ?thesis
      proof
        assume f: "sbrk ?d s = (None, s\<lparr>sbrk_calls := sbrk_calls s @ [?d]\<rparr>)"
        have "?body = Some (NULL, s\<lparr>sbrk_calls := sbrk_calls s @ [?d]\<rparr>)"
          using fb none l False f by auto
        moreover have "?post NULL (s\<lparr>sbrk_calls := sbrk_calls s @ [?d]\<rparr>) ys"
          using d assms(2) by (simp add: placed_def dlist_os_update heap_statuses_os_update)
        ultimately show ?thesis by blast
      next
        let ?s1 = "s\<lparr>sbrk_calls := sbrk_calls s @ [?d], brk := brk s + ?d\<rparr>"
        let ?new = "At (brk s)"
        let ?s4 = "set_size ?new a ?s1"
        let ?s' = "list_add_last ?new ?s4"
        assume f: "sbrk ?d s = (Some (brk s), ?s1)"
        have body: "?body = Some (?new, ?s')"
          using fb none l False f by (auto simp add: Let_def)
        have fresh: "?new \<notin> set ys" using assms(1) by (rule brk_fresh)
        have d4: "dlist ?s4 ys" using d by (simp add: set_size_dlist dlist_os_update)
        have d': "dlist ?s' (ys @ [?new])"
          using d4 fresh by (rule list_add_last_dlist) simp_all
        have "heap_statuses ?s' ys = heap_statuses s ys"
          by (rule heap_statuses_cong)
             (simp add: list_add_last_frame set_size_def)
        then have "no_adjacent_free (heap_statuses ?s' ys)" using assms(2) by simp
        from naf_set_alloc [OF this, of ?new]
        have "no_adjacent_free (heap_statuses (set_status ?new STATUS_ALLOC ?s') ys)" by simp
        then have "no_adjacent_free (heap_statuses (placed ?new ?s') (ys @ [?new]))"
          by (simp add: placed_def heap_statuses_snoc naf_snoc set_status_def)
        moreover have "dlist (placed ?new ?s') (ys @ [?new])"
          using d' by (simp add: placed_def set_status_dlist)
        moreover have "accessible (placed ?new ?s') (payload ?new) a"
        proof -
          have ud: "unat ?d = unat META_BLOCK_SIZE + unat a"
            using small by (simp add: unat_word_ariths unat_META)
          then have "unat ?d < 2 ^ 63" using small by (simp add: unat_META)
          from sbrk_grow(1) [OF f this]
          have ub: "unat (brk s + ?d) = unat (brk s) + unat ?d" .
          have "unat (brk s + ?d) < 2 ^ 64"
            using unsigned_less [of "brk s + ?d", where ?'a = nat] by simp
          with ub ud have "unat (brk s) + unat META_BLOCK_SIZE + unat a \<le> unat (brk s + ?d)"
            by simp
          then have up: "unat (addr_of (payload ?new)) = unat (brk s) + unat META_BLOCK_SIZE"
            by (rule unat_payload)
          have lo: "unat (brk_min s) \<le> unat (brk s)" using t by (rule tiles_le)
          have "brk (placed ?new ?s') = brk s + ?d" "brk_min (placed ?new ?s') = brk_min s"
            using state_mem_frame(1,2) [OF list_add_last_frame(3), of ?new ?s4]
            by (simp_all add: placed_os set_size_def)
          then show ?thesis
            using up ub ud lo by (intro accessible_heap) simp_all
        qed
        ultimately show ?thesis using body by blast
      qed
    qed
  next
    case (found pre post)
    then have rn: "?r \<noteq> NULL" using nn by auto
    from found(2) have fr: "status (mem s ?r) = STATUS_FREE" "a \<le> bsize (mem s ?r)"
      by (simp_all add: fits_def)
    have body: "?body = Some (?r, split_block_attempt ?r a s)"
      using fb rn by simp
    have acc: "accessible (placed ?r (split_block_attempt ?r a s)) (payload ?r) a"
    proof -
      have "?r \<in> set ys" using found(1) by (metis in_set_conv_decomp)
      with fr(1) have ri: "?r \<in> set (heap_blocks s ys)" by (simp add: heap_blocks_mem)
      from heap_block_in_break [OF t ri] obtain c where c: "?r = At c"
        "unat (brk_min s) \<le> unat c"
        "unat c + unat META_BLOCK_SIZE + unat (bsize (mem s ?r)) \<le> unat (brk s)"
        "unat (addr_of (payload ?r)) = unat c + unat META_BLOCK_SIZE"
        by blast
      have la: "unat a \<le> unat (bsize (mem s ?r))" using fr(2) by (simp add: word_le_nat_alt)
      have "accessible s (payload ?r) a"
        using c la by (intro accessible_heap) simp_all
      moreover have "accessible (placed ?r (split_block_attempt ?r a s)) (payload ?r) a
                       = accessible s (payload ?r) a"
        using state_mem_frame(1,2,6) [OF split_block_attempt_frame, of ?r a s]
        by (intro accessible_cong) (simp_all add: placed_os)
      ultimately show ?thesis by simp
    qed
    show ?thesis
    proof (cases "bsize (mem s ?r) = ALIGN a \<or> bsize (mem s ?r) \<le> ALIGN a + META_BLOCK_SIZE + 1")
      case True
      then have "split_block_attempt ?r a s = s" by (rule split_not_happens)
      moreover have "dlist (placed ?r s) ys" using d by (simp add: placed_def set_status_dlist)
      moreover have "no_adjacent_free (heap_statuses (placed ?r s) ys)"
        using naf_set_alloc [OF assms(2), of ?r] rn by (simp add: placed_def)
      ultimately show ?thesis using body acc by auto
    next
      case False
      define r where "r = ?r"
      define new where "new = ptr_add r (META_BLOCK_SIZE + ALIGN a)"
      define s' where "s' = split_block_attempt r a s"
      have ys: "ys = pre @ r # post" unfolding r_def by (rule found(1))
      have fr': "status (mem s r) = STATUS_FREE" "a \<le> bsize (mem s r)"
        unfolding r_def by (rule fr)+
      have sp: "bsize (mem s r) \<noteq> ALIGN a" "\<not> bsize (mem s r) \<le> ALIGN a + META_BLOCK_SIZE + 1"
        unfolding r_def using False by simp_all
      have body': "?body = Some (r, s')"
        unfolding r_def s'_def by (rule body)
      have acc': "accessible (placed r s') (payload r) a"
        unfolding r_def s'_def by (rule acc)
      have dl: "dlist s (pre @ r # post)" using d unfolding ys .
      have hl: "heap_layout s (pre @ r # post)" using assms(1) unfolding ys .
      have sp1: "bsize (mem s r) \<noteq> a" using sp(1) unfolding al .
      have fresh: "new \<notin> set (pre @ r # post)"
        unfolding new_def al using hl fr' sp1 by (rule split_fresh)
      have d': "dlist s' (pre @ r # new # post)"
        unfolding s'_def using dl new_def fresh sp by (rule split_happens_dlist)
      have st: "status (mem s' q) = (if q = new then STATUS_FREE else status (mem s q))" for q
        unfolding s'_def using dl new_def fresh sp by (rule split_happens_fields(4))
      have dist: "distinct (pre @ r # new # post)" using d' by (simp add: dlist_def)
      have rnn: "r \<noteq> NULL" unfolding r_def by (rule rn)
      have hp: "heap_statuses (placed r s') pre = heap_statuses s pre"
        by (rule heap_statuses_cong_set) (use dist rnn in \<open>auto simp add: placed_def set_status_def st\<close>)
      have hq: "heap_statuses (placed r s') post = heap_statuses s post"
        by (rule heap_statuses_cong_set) (use dist rnn in \<open>auto simp add: placed_def set_status_def st\<close>)
      have hr: "status (mem (placed r s') r) = STATUS_ALLOC"
        "status (mem (placed r s') new) = STATUS_FREE"
        using dist rnn by (auto simp add: placed_def set_status_def st)
      have "no_adjacent_free (heap_statuses s (pre @ r # post))"
        using assms(2) unfolding ys .
      then have "no_adjacent_free (heap_statuses s pre @ STATUS_FREE # heap_statuses s post)"
        using fr'(1) by (simp add: heap_statuses_append heap_statuses_Cons)
      then have "no_adjacent_free
                   (heap_statuses s pre @ STATUS_ALLOC # STATUS_FREE # heap_statuses s post)"
        by (rule naf_split_alloc)
      then have "no_adjacent_free (heap_statuses (placed r s') (pre @ r # new # post))"
        by (simp add: heap_statuses_append heap_statuses_Cons hp hq hr)
      moreover have "dlist (placed r s') (pre @ r # new # post)"
        using d' rnn by (simp add: placed_def set_status_dlist)
      ultimately show ?thesis using body' acc' by blast
    qed
  qed
qed

subsection \<open>Pre-allocation\<close>

lemma heap_blocks_cong_set:
  "\<forall>q\<in>set xs. status (mem s' q) = status (mem s q) \<Longrightarrow> heap_blocks s' xs = heap_blocks s xs"
  by (induction xs) (simp_all add: heap_blocks_def)

lemma prealloc_sizes:
  "unat HEAP_PREALLOC_SIZE = 131072" "sint HEAP_PREALLOC_SIZE = 131072"
  "unat (HEAP_PREALLOC_SIZE - META_BLOCK_SIZE) = 131040"
  by (simp_all add: HEAP_PREALLOC_SIZE_def META_BLOCK_SIZE_eq)

lemma prealloc_layout:
  assumes "heap_layout s xs"
  shows "(\<exists>s1. prealloc_heap_attempt s = (False, s1) \<and> dlist s1 xs \<and> heap_statuses s1 xs = [])
         \<or> (\<exists>s1 xs1. prealloc_heap_attempt s = (True, s1) \<and> heap_layout s1 xs1
               \<and> heap_prealloc_done s1)"
proof (cases "heap_prealloc_done s")
  case True
  then have "prealloc_heap_attempt s = (True, s)" by (simp add: prealloc_heap_attempt_def)
  with assms True show ?thesis by blast
next
  case False
  from assms have d: "dlist s xs" and t: "tiles (mem s) (brk_min s) (heap_blocks s xs) (brk s)"
    and mp: "\<forall>x\<in>set xs. status (mem s x) = STATUS_MAPPED \<longrightarrow>
            addr_of x < brk_min s \<or> brk_max s < addr_of x"
    by (simp_all add: heap_layout_def)
  from assms False have e: "heap_blocks s xs = []" by (simp add: heap_layout_def)
  with t have bm: "brk_min s = brk s" by simp
  from e have am: "\<forall>x\<in>set xs. status (mem s x) = STATUS_MAPPED"
    by (simp add: heap_blocks_def filter_empty_conv)
  let ?d = HEAP_PREALLOC_SIZE
  from sbrk_cases [of ?d s] show ?thesis
  proof
    assume f: "sbrk ?d s = (None, s\<lparr>sbrk_calls := sbrk_calls s @ [?d]\<rparr>)"
    then have "prealloc_heap_attempt s = (False, s\<lparr>sbrk_calls := sbrk_calls s @ [?d]\<rparr>)"
      using False by (simp add: prealloc_heap_attempt_def)
    moreover have "heap_statuses (s\<lparr>sbrk_calls := sbrk_calls s @ [?d]\<rparr>) xs = []"
    proof -
      have "heap_statuses s xs = []" using e by (simp only: heap_statuses_blocks) simp
      then show ?thesis by (simp only: heap_statuses_os_update)
    qed
    ultimately show ?thesis using d by (simp add: dlist_os_update)
  next
    let ?s1 = "s\<lparr>sbrk_calls := sbrk_calls s @ [?d], brk := brk s + ?d\<rparr>"
    let ?new = "At (brk s)"
    define s4 where "s4 = list_add_last ?new
                            (set_status ?new STATUS_FREE
                              (set_size ?new (HEAP_PREALLOC_SIZE - META_BLOCK_SIZE) ?s1))"
    define sf where "sf = s4\<lparr>heap_prealloc_done := True\<rparr>"
    assume f: "sbrk ?d s = (Some (brk s), ?s1)"
    then have p: "prealloc_heap_attempt s = (True, sf)"
      using False by (simp add: prealloc_heap_attempt_def Let_def sf_def s4_def)
    from sbrk_success_range [OF f]
    have "uint (brk s) + 131072 \<le> uint (brk_max s)" by (simp add: prealloc_sizes)
    then have rng: "unat (brk s) + 131072 \<le> unat (brk_max s)"
      unfolding uint_nat by linarith
    have "unat (brk_max s) < 2 ^ 64" using unsigned_less [of "brk_max s", where ?'a = nat] by simp
    with rng have ub: "unat (brk s + ?d) = unat (brk s) + 131072"
      by (simp add: unat_word_ariths prealloc_sizes)
    have fresh: "?new \<notin> set xs" using assms by (rule brk_fresh)
    have d3: "dlist (set_status ?new STATUS_FREE
                      (set_size ?new (HEAP_PREALLOC_SIZE - META_BLOCK_SIZE) ?s1)) xs"
      using d by (simp add: set_status_dlist set_size_dlist dlist_os_update)
    have d4: "dlist s4 (xs @ [?new])"
      unfolding s4_def using d3 fresh by (rule list_add_last_dlist) simp_all
    have st: "status (mem sf q) = (if q = ?new then STATUS_FREE else status (mem s q))" for q
      by (simp add: sf_def s4_def list_add_last_frame set_status_def set_size_def)
    have sz: "bsize (mem sf ?new) = HEAP_PREALLOC_SIZE - META_BLOCK_SIZE"
      by (simp add: sf_def s4_def list_add_last_frame set_status_def set_size_def)
    have os: "brk sf = brk s + ?d" "brk_min sf = brk_min s" "brk_max sf = brk_max s"
      "heap_prealloc_done sf"
      using state_mem_frame [OF list_add_last_frame(3),
          of ?new "set_status ?new STATUS_FREE
                      (set_size ?new (HEAP_PREALLOC_SIZE - META_BLOCK_SIZE) ?s1)"]
      by (simp_all add: sf_def s4_def set_status_def set_size_def)
    have "heap_blocks sf xs = heap_blocks s xs"
      by (rule heap_blocks_cong_set) (use fresh st in auto)
    then have hb: "heap_blocks sf (xs @ [?new]) = [?new]"
      using e st by (simp add: heap_blocks_append heap_blocks_Cons heap_blocks_Nil)
    have "dlist sf (xs @ [?new])" using d4 by (simp add: sf_def dlist_os_update)
    moreover have "tiles (mem sf) (brk_min sf) (heap_blocks sf (xs @ [?new])) (brk sf)"
      using ub by (simp add: hb os sz bm unat_META prealloc_sizes)
    moreover have "brk sf \<le> brk_max sf"
      using ub rng by (simp add: os word_le_nat_alt)
    moreover have "\<forall>x\<in>set (xs @ [?new]). status (mem sf x) = STATUS_MAPPED \<longrightarrow>
            addr_of x < brk_min sf \<or> brk_max sf < addr_of x"
      using mp fresh by (auto simp add: st os)
    ultimately have "heap_layout sf (xs @ [?new])"
      using os(4) by (simp add: heap_layout_def)
    with p os(4) show ?thesis by blast
  qed
qed

lemma get_free_heap_block_placed:
  assumes "heap_layout s xs" "aligned8 a"
    and "unat a + unat META_BLOCK_SIZE < unat MMAP_THRESHOLD"
  shows "\<exists>b s' zs. get_free_heap_block a s = Some (b, s') \<and> dlist (placed b s') zs
           \<and> no_adjacent_free (heap_statuses (placed b s') zs)
           \<and> (b \<noteq> NULL \<longrightarrow> accessible (placed b s') (payload b) a)"
proof -
  have al: "ALIGN a = a" using assms(2) by (rule ALIGN_aligned8)
  from prealloc_layout [OF assms(1)] show ?thesis
  proof (elim disjE exE conjE)
    fix s1
    assume "prealloc_heap_attempt s = (False, s1)" "dlist s1 xs" "heap_statuses s1 xs = []"
    then have "get_free_heap_block a s = Some (NULL, s1)" "dlist (placed NULL s1) xs"
      "no_adjacent_free (heap_statuses (placed NULL s1) xs)"
      by (simp_all add: get_free_heap_block_def placed_def)
    then show ?thesis by blast
  next
    fix s1 xs1
    assume p: "prealloc_heap_attempt s = (True, s1)" and l1: "heap_layout s1 xs1"
    from coalesce_attempt_layout [OF l1] obtain s2 ys where
      c: "coalesce_attempt s1 = Some s2" and l2: "heap_layout s2 ys"
      and n2: "no_adjacent_free (heap_statuses s2 ys)"
      by blast
    let ?B = "case find_best_block a s2 of
                None \<Rightarrow> None
              | Some best_block \<Rightarrow>
                  if best_block \<noteq> NULL
                  then Some (best_block, split_block_attempt best_block a s2)
                  else
                    (case get_last_on_heap s2 of
                       None \<Rightarrow> None
                     | Some last_on_heap \<Rightarrow>
                         if last_on_heap \<noteq> NULL
                            \<and> status (mem s2 last_on_heap) = STATUS_FREE
                         then expand_last_block a s2
                         else
                           (case sbrk (META_BLOCK_SIZE + a) s2 of
                              (None, s3) \<Rightarrow> Some (NULL, s3)
                            | (Some request_block, s3) \<Rightarrow>
                                (let new_block = At request_block;
                                     s4 = set_size new_block a s3
                                 in Some (new_block, list_add_last new_block s4))))"
    from place_after_search [OF l2 n2 assms(2,3)] obtain b s' zs where
      r: "?B = Some (b, s')"
      and post: "dlist (placed b s') zs" "no_adjacent_free (heap_statuses (placed b s') zs)"
        "b \<noteq> NULL \<longrightarrow> accessible (placed b s') (payload b) a"
      by blast
    have g: "get_free_heap_block a s = ?B"
      unfolding get_free_heap_block_def al by (simp add: p c)
    have "get_free_heap_block a s = Some (b, s')"
      using g r by (rule trans)
    with post show ?thesis by blast
  qed
qed

subsection \<open>Allocate and zero-allocate\<close>

lemma memset0_accessible:
  "accessible s p n \<Longrightarrow> \<exists>s'. memset0 p n s = Some s' \<and> (\<forall>xs. dlist s' xs = dlist s xs)
     \<and> (\<forall>xs. heap_statuses s' xs = heap_statuses s xs)"
  by (simp add: memset0_def dlist_def heap_statuses_def)

lemma unat_sum_small:
  fixes a :: size_t
  assumes "unat a + unat META_BLOCK_SIZE < unat (t :: size_t)"
  shows "unat (a + META_BLOCK_SIZE) = unat a + unat META_BLOCK_SIZE"
proof -
  have "unat t < 2 ^ 64" using unsigned_less [of t, where ?'a = nat] by simp
  with assms show ?thesis by (simp add: unat_word_ariths)
qed

lemma page_test:
  assumes "unat a + unat META_BLOCK_SIZE < unat getpagesize"
  shows "sint (a + META_BLOCK_SIZE) < sint getpagesize"
proof -
  have u: "unat (a + META_BLOCK_SIZE) = unat a + unat META_BLOCK_SIZE"
    using assms by (rule unat_sum_small)
  have g: "unat getpagesize = 4096" by (simp add: getpagesize_def)
  have "unat (a + META_BLOCK_SIZE) < 2 ^ 63" using u assms g by simp
  then have 1: "sint (a + META_BLOCK_SIZE) = int (unat (a + META_BLOCK_SIZE))"
    by (rule sint_small)
  have 2: "sint getpagesize = int (unat getpagesize)"
    by (rule sint_small) (simp add: g)
  have "int (unat (a + META_BLOCK_SIZE)) < int (unat getpagesize)"
    unfolding u using assms by (simp only: of_nat_less_iff)
  then show ?thesis by (simp only: 1 2)
qed

lemma heap_layout_example:
  "heap_layout (set_status (At 0x1060) STATUS_FREE example_state) example_blocks"
proof -
  let ?s = "set_status (At 0x1060) STATUS_FREE example_state"
  have f: "brk_min ?s = 0x1000" "brk ?s = 0x21000" "brk_max ?s = 0x100000"
    "heap_prealloc_done ?s"
    by (simp_all add: set_status_def example_state_def)
  have hb: "heap_blocks ?s example_blocks = [At 0x1000, At 0x1060, At 0x10A0, At 0x10E0]"
    by (simp add: heap_blocks_def set_status_def example_state_def example_blocks_def)
  show ?thesis
    unfolding heap_layout_def
  proof (intro conjI)
    show "dlist ?s example_blocks"
      by (simp add: set_status_dlist dlist_example)
    show "tiles (mem ?s) (brk_min ?s) (heap_blocks ?s example_blocks) (brk ?s)"
      unfolding hb f by (simp add: set_status_def example_state_def META_BLOCK_SIZE_eq)
    show "brk ?s \<le> brk_max ?s"
      unfolding f by simp
    show "\<forall>x\<in>set example_blocks. status (mem ?s x) = STATUS_MAPPED \<longrightarrow>
            addr_of x < brk_min ?s \<or> brk_max ?s < addr_of x"
      unfolding f by (simp add: example_blocks_def set_status_def example_state_def)
    show "heap_prealloc_done ?s \<or> heap_blocks ?s example_blocks = []"
      using f(4) by simp
  qed
qed

text \<open>The layout holds on a fresh process, whose list the first call initialises.\<close>

lemma heap_layout_initial:
  assumes "brk0 \<le> limit"
  shows "heap_layout (if \<not> head_init_done (initial_state brk0 limit pool)
                      then head_init (initial_state brk0 limit pool)
                      else initial_state brk0 limit pool) []"
  using assms
  by (simp add: heap_layout_def head_init_dlist heap_blocks_Nil)
     (simp add: initial_state_def head_init_def set_next_def set_prev_def set_size_def)

text \<open>
  The sizes matter. A zero-allocate of \<open>2\<^sup>6\<^sup>4 - 8\<close> bytes passes the overflow check of
  \<^verbatim>\<open>os_calloc\<close>; the sum with \<^verbatim>\<open>META_BLOCK_SIZE\<close> wraps around to 24, so the request takes
  the heap path, the last block is grown by a negative amount, and \<^verbatim>\<open>memset\<close> is asked to
  clear \<open>2\<^sup>6\<^sup>4 - 8\<close> bytes: the call does not return.
\<close>

lemma wrapped_request_placement:
  "map_option (\<lambda>(b, s). (b, brk s, brk_min s, mappings s))
     (get_free_heap_block 0xFFFFFFFFFFFFFFF8 (head_init (initial_state 0x1000 0x100000 [])))
     = Some (At 0x1000, 0x1018, 0x1000, [])"
  by code_simp

lemma os_calloc_wrapped_size_faults:
  "os_calloc 1 0xFFFFFFFFFFFFFFF8 (initial_state 0x1000 0x100000 []) = None"
proof -
  let ?s0 = "initial_state 0x1000 0x100000 []"
  from wrapped_request_placement obtain s2 where
    g: "get_free_heap_block 0xFFFFFFFFFFFFFFF8 (head_init ?s0) = Some (At 0x1000, s2)"
    and f: "brk s2 = 0x1018" "brk_min s2 = 0x1000" "mappings s2 = []"
    by (auto simp add: map_option_case split: option.splits)
  have a: "ALIGN 0xFFFFFFFFFFFFFFF8 = (0xFFFFFFFFFFFFFFF8 :: size_t)"
    by (simp add: ALIGN_def ALIGNMENT_def)
  have "\<not> accessible (set_status (At 0x1000) STATUS_ALLOC s2) (payload (At 0x1000))
            0xFFFFFFFFFFFFFFF8"
    by (simp add: accessible_def set_status_def f payload_def META_BLOCK_SIZE_eq)
  then have "memset0 (payload (At 0x1000)) 0xFFFFFFFFFFFFFFF8
               (set_status (At 0x1000) STATUS_ALLOC s2) = None"
    by (simp add: memset0_def)
  moreover have "\<not> head_init_done ?s0" by (simp add: initial_state_def)
  ultimately show ?thesis
    using g by (simp add: os_calloc_def Let_def a META_BLOCK_SIZE_eq getpagesize_def)
qed

text \<open>
  Claim C1, as the code has it. Take a state whose heap-regime blocks fill the
  program-break region in list order (\<open>heap_layout\<close>, for the list as the call finds it
  after its lazy initialisation of the sentinel), and a request whose aligned size and
  descriptor stay, without wrapping around, below the bound of the heap path:
  \<^verbatim>\<open>MMAP_THRESHOLD\<close> for \<^verbatim>\<open>os_malloc\<close>, the page size for an \<^verbatim>\<open>os_calloc\<close> that passes its
  overflow check. The call returns (the \<^verbatim>\<open>memset\<close> of \<^verbatim>\<open>os_calloc\<close> stays inside the block
  it clears), and in the list it leaves no two neighbouring heap-regime blocks are both
  free, mapped blocks between them not counting: every heap placement starts with the
  coalesce pass, and the split, the growth of the last block and the new block at the
  break that may follow it put no free block next to another. This holds whether or not
  the request could be served.
  \<^verbatim>\<open>os_free\<close> itself only marks the block free, so the property can fail when an
  operation returns and is restored by the next heap placement.
\<close>

theorem heap_placement_no_adjacent_free:
  assumes "heap_layout (if \<not> head_init_done s then head_init s else s) xs"
  shows "(sz \<noteq> 0 \<and> unat (ALIGN sz) + unat META_BLOCK_SIZE < unat MMAP_THRESHOLD \<longrightarrow>
            (\<exists>p s' ys. os_malloc sz s = Some (p, s') \<and> dlist s' ys
               \<and> no_adjacent_free (heap_statuses s' ys)))
         \<and> (nmemb \<noteq> 0 \<and> sz \<noteq> 0
              \<and> \<not> (ALIGN (sz * nmemb) < sz \<or> ALIGN (sz * nmemb) < nmemb)
              \<and> unat (ALIGN (sz * nmemb)) + unat META_BLOCK_SIZE < unat getpagesize \<longrightarrow>
            (\<exists>p s' ys. os_calloc nmemb sz s = Some (p, s') \<and> dlist s' ys
               \<and> no_adjacent_free (heap_statuses s' ys)))"
proof (intro conjI impI)
  let ?s1 = "if \<not> head_init_done s then head_init s else s"
  let ?a = "ALIGN sz"
  assume a: "sz \<noteq> 0 \<and> unat (ALIGN sz) + unat META_BLOCK_SIZE < unat MMAP_THRESHOLD"
  then have b: "unat ?a + unat META_BLOCK_SIZE < unat MMAP_THRESHOLD" by simp
  have "unat (?a + META_BLOCK_SIZE) = unat ?a + unat META_BLOCK_SIZE"
    using b by (rule unat_sum_small)
  with b have w: "?a + META_BLOCK_SIZE < MMAP_THRESHOLD"
    by (simp add: word_less_nat_alt)
  from get_free_heap_block_placed [OF assms aligned8_ALIGN b] obtain b s2 zs where
    g: "get_free_heap_block ?a ?s1 = Some (b, s2)"
    and post: "dlist (placed b s2) zs" "no_adjacent_free (heap_statuses (placed b s2) zs)"
    by blast
  have "os_malloc sz s = Some (if b = NULL then NULL else payload b, placed b s2)"
    using a w g by (simp add: os_malloc_def Let_def placed_def)
  with post show "\<exists>p s' ys. os_malloc sz s = Some (p, s') \<and> dlist s' ys
               \<and> no_adjacent_free (heap_statuses s' ys)"
    by blast
next
  let ?s1 = "if \<not> head_init_done s then head_init s else s"
  let ?a = "ALIGN (sz * nmemb)"
  assume a: "nmemb \<noteq> 0 \<and> sz \<noteq> 0
              \<and> \<not> (ALIGN (sz * nmemb) < sz \<or> ALIGN (sz * nmemb) < nmemb)
              \<and> unat (ALIGN (sz * nmemb)) + unat META_BLOCK_SIZE < unat getpagesize"
  then have pg: "unat ?a + unat META_BLOCK_SIZE < unat getpagesize" by simp
  then have b: "unat ?a + unat META_BLOCK_SIZE < unat MMAP_THRESHOLD"
    by (simp add: getpagesize_def MMAP_THRESHOLD_def)
  have w: "sint (?a + META_BLOCK_SIZE) < sint getpagesize"
    using pg by (rule page_test)
  from get_free_heap_block_placed [OF assms aligned8_ALIGN b] obtain b s2 zs where
    g: "get_free_heap_block ?a ?s1 = Some (b, s2)"
    and post: "dlist (placed b s2) zs" "no_adjacent_free (heap_statuses (placed b s2) zs)"
      "b \<noteq> NULL \<longrightarrow> accessible (placed b s2) (payload b) ?a"
    by blast
  show "\<exists>p s' ys. os_calloc nmemb sz s = Some (p, s') \<and> dlist s' ys
               \<and> no_adjacent_free (heap_statuses s' ys)"
  proof (cases "b = NULL")
    case True
    then have "os_calloc nmemb sz s = Some (NULL, s2)"
      using a w g by (simp add: os_calloc_def Let_def)
    with post(1,2) True show ?thesis by (auto simp add: placed_def)
  next
    case False
    with post(3) have "accessible (set_status b STATUS_ALLOC s2) (payload b) ?a"
      by (simp add: placed_def)
    from memset0_accessible [OF this] obtain s3 where
      m: "memset0 (payload b) ?a (set_status b STATUS_ALLOC s2) = Some s3"
      and fr: "\<forall>xs. dlist s3 xs = dlist (set_status b STATUS_ALLOC s2) xs"
        "\<forall>xs. heap_statuses s3 xs = heap_statuses (set_status b STATUS_ALLOC s2) xs"
      by blast
    have "os_calloc nmemb sz s = Some (payload b, s3)"
      using a w g m False by (simp add: os_calloc_def Let_def)
    moreover have "dlist s3 zs" "no_adjacent_free (heap_statuses s3 zs)"
      using post(1,2) False fr by (simp_all add: placed_def)
    ultimately show ?thesis by blast
  qed
qed

theorem heap_placement_no_adjacent_free_witness:
  "heap_layout (set_status (At 0x1060) STATUS_FREE example_state) example_blocks
   \<and> has_adjacent_free example_blocks (set_status (At 0x1060) STATUS_FREE example_state)
   \<and> (\<exists>p s' ys. os_malloc 100 (set_status (At 0x1060) STATUS_FREE example_state) = Some (p, s')
          \<and> dlist s' ys \<and> no_adjacent_free (heap_statuses s' ys))
   \<and> (\<exists>p s' ys. os_calloc 5 20 (set_status (At 0x1060) STATUS_FREE example_state) = Some (p, s')
          \<and> dlist s' ys \<and> no_adjacent_free (heap_statuses s' ys))"
proof -
  let ?s = "set_status (At 0x1060) STATUS_FREE example_state"
  have i: "(if \<not> head_init_done ?s then head_init ?s else ?s) = ?s"
    by (simp add: set_status_def example_state_def)
  have l: "heap_layout (if \<not> head_init_done ?s then head_init ?s else ?s) example_blocks"
    unfolding i by (rule heap_layout_example)
  have "\<not> no_adjacent_free (heap_statuses ?s example_blocks)"
    by (simp add: heap_statuses_def set_status_def example_state_def example_blocks_def)
  then have n: "has_adjacent_free example_blocks ?s"
    by (simp add: has_adjacent_free_def set_status_dlist dlist_example)
  have m: "(100 :: size_t) \<noteq> 0
             \<and> unat (ALIGN 100) + unat META_BLOCK_SIZE < unat MMAP_THRESHOLD"
    by (simp add: ALIGN_def ALIGNMENT_def META_BLOCK_SIZE_eq MMAP_THRESHOLD_def)
  have c: "(5 :: size_t) \<noteq> 0 \<and> (20 :: size_t) \<noteq> 0
             \<and> \<not> (ALIGN (20 * 5) < (20 :: size_t) \<or> ALIGN (20 * 5) < (5 :: size_t))
             \<and> unat (ALIGN (20 * 5)) + unat META_BLOCK_SIZE < unat getpagesize"
    by (simp add: ALIGN_def ALIGNMENT_def META_BLOCK_SIZE_eq getpagesize_def)
  from heap_placement_no_adjacent_free [OF l, of 100 5] m
  have 1: "\<exists>p s' ys. os_malloc 100 ?s = Some (p, s') \<and> dlist s' ys
             \<and> no_adjacent_free (heap_statuses s' ys)"
    by blast
  from heap_placement_no_adjacent_free [OF l, of 20 5] c
  have 2: "\<exists>p s' ys. os_calloc 5 20 ?s = Some (p, s') \<and> dlist s' ys
             \<and> no_adjacent_free (heap_statuses s' ys)"
    by blast
  from heap_layout_example n 1 2 show ?thesis by blast
qed

text \<open>
  The claim as stated fails after \<^verbatim>\<open>os_free\<close>: on a fresh process, allocate 8 bytes
  (the pointer returned is \<open>0x1020\<close>) and free them. The list then holds the freed block
  and the free remainder of the pre-allocated heap next to each other.
\<close>

theorem os_free_adjacent_free_counterexample:
  "map_option fst (os_malloc 8 (initial_state 0x1000 0x100000 [])) = Some (At 0x1020) \<and>
   map_option (has_adjacent_free [At 0x1000, At 0x1028])
     (run [Malloc 8, Free (At 0x1020)] (initial_state 0x1000 0x100000 [])) = Some True"
  by code_simp

section \<open>The program break\<close>

text \<open>
  Claim C8 says that no operation lowers the program break and that every increment
  passed to \<^verbatim>\<open>sbrk\<close> is non-negative. \<^verbatim>\<open>os_malloc\<close> does not keep to it for sizes near
  \<^verbatim>\<open>SIZE_MAX\<close>: for a request of \<open>2^64 - 8\<close> bytes the sum
  \<^verbatim>\<open>aligned_size + META_BLOCK_SIZE\<close> wraps around to 24, the request is taken for a heap
  request, no block fits, and \<^verbatim>\<open>expand_last_block\<close> passes \<open>2^64 - 8 - last.size\<close> to
  \<^verbatim>\<open>sbrk\<close>, which reads it as a negative increment. After \<^verbatim>\<open>os_malloc(8)\<close> the break
  is at \<open>0x21000\<close>; after the following \<^verbatim>\<open>os_malloc(2^64 - 8)\<close> it is at \<open>0x1040\<close>, and the
  second increment requested is \<open>-131008\<close>. As the first call of a process the same request
  returns the pointer \<open>0x1020\<close>, which lies above the break \<open>0x1018\<close> it leaves.
\<close>

theorem os_malloc_huge_lowers_break:
  "map_option brk (run [Malloc 8] (initial_state 0x1000 0x100000 [])) = Some 0x21000
   \<and> map_option brk (run [Malloc 8, Malloc 0xFFFFFFFFFFFFFFF8] (initial_state 0x1000 0x100000 []))
       = Some 0x1040
   \<and> map_option sbrk_calls
        (run [Malloc 8, Malloc 0xFFFFFFFFFFFFFFF8] (initial_state 0x1000 0x100000 []))
       = Some [0x20000, 0xFFFFFFFFFFFE0040]
   \<and> sint (0xFFFFFFFFFFFE0040 :: size_t) = - 131008
   \<and> map_option fst (os_malloc 0xFFFFFFFFFFFFFFF8 (initial_state 0x1000 0x100000 []))
       = Some (At 0x1020)
   \<and> map_option (brk \<circ> snd) (os_malloc 0xFFFFFFFFFFFFFFF8 (initial_state 0x1000 0x100000 []))
       = Some 0x1018"
  by code_simp

end
